theory Spec2Isabelle
  imports Main "HOL-Library.Word" "HOL-Library.List_Lexorder"
begin

unbundle bit_operations_syntax

section \<open>Data model\<close>

text \<open>
  A JavaScript string is a sequence of UTF-16 code units; the relational operators on
  strings compare code unit by code unit, a proper prefix being smaller.  This is the
  lexicographic order on lists of 16-bit words.
\<close>

type_synonym jsstring = "16 word list"

text \<open>\<^verbatim>\<open>const EMPTY_KEY = "\xff\xff\xff\xff";\<close>\<close>

definition EMPTY_KEY :: jsstring where
  "EMPTY_KEY = [0xFF, 0xFF, 0xFF, 0xFF]"

text \<open>
  The caveat of the source: keys consist of characters that are not \<^verbatim>\<open>\xff\<close>; the
  specification restricts them to the bytes \<^verbatim>\<open>0x00 .. 0xFE\<close>.
\<close>

definition legal_key :: "jsstring \<Rightarrow> bool" where
  "legal_key k = list_all (\<lambda>c. c \<le> 0xFE) k"

text \<open>\<^verbatim>\<open>type Entry = { key: string; value?: string }\<close>; an absent value is \<open>None\<close>.\<close>

record Entry =
  key :: jsstring
  val :: "jsstring option"

section \<open>Constants\<close>

text \<open>
  The source fixes \<^verbatim>\<open>CAPACITY = 1 << 24\<close> ("must be a power-of-two") and derives
  \<^verbatim>\<open>SHIFT\<close> and \<^verbatim>\<open>OVERFLOW\<close> from it.  The exponent is the parameter \<open>lg\<close> of the
  model, so that the same code can be run on small tables as well; the source's own
  configuration is \<open>lg = 24\<close>.  For \<open>1 \<le> lg \<le> 30\<close> the left shift \<^verbatim>\<open>1 << lg\<close> is \<open>2 ^ lg\<close>,
  \<^verbatim>\<open>Math.floor(Math.log2(CAPACITY))\<close> is \<open>lg\<close>, and the 32-bit truncation of
  \<^verbatim>\<open>CAPACITY / 10 + (31 - SHIFT + 1)\<close> before \<^verbatim>\<open><< 1\<close> is the integer quotient plus \<open>lg\<close>.
\<close>

definition lg_src :: nat where
  "lg_src = 24"

definition CAPACITY :: "nat \<Rightarrow> int" where
  "CAPACITY lg = 2 ^ lg"

definition SHIFT :: "nat \<Rightarrow> nat" where
  "SHIFT lg = 31 - lg + 1"

definition OVERFLOW :: "nat \<Rightarrow> int" where
  "OVERFLOW lg = (CAPACITY lg div 10 + (31 - int (SHIFT lg) + 1)) * 2"

section \<open>Hash projection\<close>

text \<open>
  \<^verbatim>\<open>key.charCodeAt(i)\<close> is the code unit at \<open>i\<close>, or NaN past the end (\<open>None\<close>);
  \<^verbatim>\<open>x | 0\<close> turns NaN into 0 and a code unit into the same 32-bit integer.
\<close>

definition charCodeAt :: "jsstring \<Rightarrow> nat \<Rightarrow> 16 word option" where
  "charCodeAt k i = (if i < length k then Some (k ! i) else None)"

definition or0 :: "16 word option \<Rightarrow> 32 word" where
  "or0 c = (case c of None \<Rightarrow> 0 | Some u \<Rightarrow> ucast u)"

text \<open>
  The bitwise operators of JavaScript work on 32-bit integers: the result of \<^verbatim>\<open>hash\<close> is
  the number \<open>sint h\<close> of the 32-bit pattern \<open>h\<close> computed here.
\<close>

definition hash :: "jsstring \<Rightarrow> 32 word" where
  "hash k =
     push_bit 24 (or0 (charCodeAt k 0)) OR
     push_bit 16 (or0 (charCodeAt k 1)) OR
     push_bit 8 (or0 (charCodeAt k 2)) OR
     or0 (charCodeAt k 0)"

text \<open>
  \<^verbatim>\<open>hash >> SHIFT\<close>: the sign-propagating right shift; the shift count is taken modulo 32.
\<close>

definition hashToIndex :: "nat \<Rightarrow> 32 word \<Rightarrow> int" where
  "hashToIndex lg h = sint (signed_drop_bit (SHIFT lg mod 32) h)"

section \<open>The table\<close>

text \<open>
  \<^verbatim>\<open>entries\<close> is one array of \<^verbatim>\<open>CAPACITY + OVERFLOW\<close> entries and \<^verbatim>\<open>len\<close> a counter; both
  are module-level state, passed explicitly here.  Every slot holds its own object and
  no operation that returns normally leaves two slots sharing one, so entries are values.
\<close>

record Table =
  entries :: "Entry list"
  len :: int

definition init :: "nat \<Rightarrow> Table" where
  "init lg =
     \<lparr>entries = replicate (nat (CAPACITY lg + OVERFLOW lg)) \<lparr>key = EMPTY_KEY, val = None\<rparr>,
      len = 0\<rparr>"

text \<open>
  The two ways an operation can throw: the explicit \<^verbatim>\<open>Error("The map is full.")\<close>, and the
  TypeError of reading \<^verbatim>\<open>.key\<close> of \<^verbatim>\<open>undefined\<close>, which is what \<^verbatim>\<open>entries[i]\<close> is when \<open>i\<close> is
  not an index of the array.
\<close>

datatype error = MapFull | TypeError

definition at :: "Entry list \<Rightarrow> int \<Rightarrow> Entry option" where
  "at es i = (if 0 \<le> i \<and> i < int (length es) then Some (es ! nat i) else None)"

subsection \<open>get\<close>

text \<open>The result of \<^verbatim>\<open>get\<close> and \<^verbatim>\<open>del\<close>: \<^verbatim>\<open>null\<close>, or the \<^verbatim>\<open>value\<close> field of the entry.\<close>

datatype lookup = Null | Value "jsstring option"

function get_loop :: "Entry list \<Rightarrow> jsstring \<Rightarrow> int \<Rightarrow> error + lookup" where
  "get_loop es k i =
     (case at es i of
        None \<Rightarrow> Inl TypeError
      | Some entry \<Rightarrow>
          if key entry \<ge> k then
            (if key entry = k then Inr (Value (val entry)) else Inr Null)
          else get_loop es k (i + 1))"
  by pat_completeness auto
termination
  by (relation "measure (\<lambda>(es, k, i). nat (int (length es) - i))")
     (auto simp: at_def split: if_splits)

definition get :: "nat \<Rightarrow> Table \<Rightarrow> jsstring \<Rightarrow> error + lookup" where
  "get lg t k = get_loop (entries t) k (hashToIndex lg (hash k))"

subsection \<open>getOrPut and put\<close>

record Located =
  exists :: bool
  index :: int

text \<open>
  The loop of \<^verbatim>\<open>getOrPut\<close>, with its variables \<^verbatim>\<open>it\<close>, \<^verbatim>\<open>i\<close> and \<^verbatim>\<open>insertedAt\<close>.  An operation
  returns its outcome together with the table it leaves behind, also when it throws.
\<close>

function getOrPut_loop ::
  "jsstring \<Rightarrow> Table \<Rightarrow> Entry \<Rightarrow> int \<Rightarrow> int option \<Rightarrow> (error + Located) \<times> Table" where
  "getOrPut_loop k t it i insertedAt =
     (case at (entries t) i of
        None \<Rightarrow> (Inl TypeError, t)
      | Some entry \<Rightarrow>
          if key entry \<ge> k then
            if key entry = k then (Inr \<lparr>exists = True, index = i\<rparr>, t)
            else
              let t1 = t\<lparr>entries := (entries t)[nat i := it]\<rparr> in
              if key entry = EMPTY_KEY then
                (Inr \<lparr>exists = False,
                      index = (case insertedAt of Some a \<Rightarrow> a | None \<Rightarrow> i)\<rparr>,
                 t1\<lparr>len := len t1 + 1\<rparr>)
              else
                getOrPut_loop k t1 entry (i + 1)
                  (case insertedAt of None \<Rightarrow> Some i | Some a \<Rightarrow> Some a)
          else getOrPut_loop k t it (i + 1) insertedAt)"
  by pat_completeness auto
termination
  by (relation "measure (\<lambda>(k, t, it, i, ins). nat (int (length (entries t)) - i))")
     (auto simp: at_def split: if_splits)

definition getOrPut :: "nat \<Rightarrow> Table \<Rightarrow> jsstring \<Rightarrow> (error + Located) \<times> Table" where
  "getOrPut lg t k =
     (if len t \<ge> CAPACITY lg then (Inl MapFull, t)
      else getOrPut_loop k t \<lparr>key = k, val = None\<rparr> (hashToIndex lg (hash k)) None)"

definition put :: "nat \<Rightarrow> Table \<Rightarrow> jsstring \<Rightarrow> jsstring \<Rightarrow> (error + unit) \<times> Table" where
  "put lg t k v =
     (case getOrPut lg t k of
        (Inl e, t') \<Rightarrow> (Inl e, t')
      | (Inr r, t') \<Rightarrow>
          (Inr (),
           t'\<lparr>entries := (entries t')
                 [nat (index r) := (entries t' ! nat (index r))\<lparr>key := k, val := Some v\<rparr>]\<rparr>))"

subsection \<open>del\<close>

text \<open>The first loop of \<^verbatim>\<open>del\<close>: \<open>Inr None\<close> is \<^verbatim>\<open>return null\<close>, \<open>Inr (Some i)\<close> the \<^verbatim>\<open>break\<close>.\<close>

function del_find :: "Entry list \<Rightarrow> jsstring \<Rightarrow> int \<Rightarrow> error + int option" where
  "del_find es k i =
     (case at es i of
        None \<Rightarrow> Inl TypeError
      | Some entry \<Rightarrow>
          if key entry \<ge> k then
            (if key entry \<noteq> k then Inr None else Inr (Some i))
          else del_find es k (i + 1))"
  by pat_completeness auto
termination
  by (relation "measure (\<lambda>(es, k, i). nat (int (length es) - i))")
     (auto simp: at_def split: if_splits)

text \<open>The second loop of \<^verbatim>\<open>del\<close>; it returns the value of \<^verbatim>\<open>i\<close> at the \<^verbatim>\<open>break\<close>.\<close>

function del_shift :: "nat \<Rightarrow> Table \<Rightarrow> int \<Rightarrow> (error + int) \<times> Table" where
  "del_shift lg t i =
     (case at (entries t) (i + 1) of
        None \<Rightarrow> (Inl TypeError, t)
      | Some nxt \<Rightarrow>
          let j = hashToIndex lg (hash (key nxt));
              t1 = t\<lparr>entries := (entries t)[nat i := nxt]\<rparr>
          in if i < j \<or> key nxt = EMPTY_KEY then (Inr i, t1)
             else del_shift lg t1 (i + 1))"
  by pat_completeness auto
termination
  by (relation "measure (\<lambda>(lg, t, i). nat (int (length (entries t)) - i))")
     (auto simp: at_def split: if_splits)

definition del :: "nat \<Rightarrow> Table \<Rightarrow> jsstring \<Rightarrow> (error + lookup) \<times> Table" where
  "del lg t k =
     (case del_find (entries t) k (hashToIndex lg (hash k)) of
        Inl e \<Rightarrow> (Inl e, t)
      | Inr None \<Rightarrow> (Inr Null, t)
      | Inr (Some i) \<Rightarrow>
          let v = val (entries t ! nat i) in
          (case del_shift lg t i of
             (Inl e, t') \<Rightarrow> (Inl e, t')
           | (Inr i', t') \<Rightarrow>
               (Inr (Value v),
                t'\<lparr>entries := (entries t')[nat i' := \<lparr>key = EMPTY_KEY, val = None\<rparr>],
                   len := len t' - 1\<rparr>)))"

subsection \<open>Scans\<close>

definition scanAscending :: "Table \<Rightarrow> Entry list" where
  "scanAscending t = filter (\<lambda>entry. key entry \<noteq> EMPTY_KEY) (entries t)"

definition scanDescending :: "Table \<Rightarrow> Entry list" where
  "scanDescending t = filter (\<lambda>entry. key entry \<noteq> EMPTY_KEY) (rev (entries t))"

section \<open>Notions of the specification\<close>

text \<open>
  The code unit at position \<open>i\<close> with keys shorter than the prefix zero-padded, and the
  three positions that \<^const>\<open>hash\<close> reads.
\<close>

definition padded :: "jsstring \<Rightarrow> nat \<Rightarrow> 16 word" where
  "padded k i = (case charCodeAt k i of None \<Rightarrow> 0 | Some u \<Rightarrow> u)"

definition prefix3 :: "jsstring \<Rightarrow> 16 word list" where
  "prefix3 k = [padded k 0, padded k 1, padded k 2]"

text \<open>Keys whose first byte has its top bit clear.\<close>

definition nonneg_key :: "jsstring \<Rightarrow> bool" where
  "nonneg_key k = (padded k 0 \<le> 0x7F)"

subsection \<open>Auxiliary definitions for the proofs\<close>

definition code :: "jsstring \<Rightarrow> nat \<Rightarrow> int" where
  "code k i = uint (padded k i)"

fun zero_pad :: "nat \<Rightarrow> jsstring \<Rightarrow> 16 word list" where
  "zero_pad 0 k = []"
| "zero_pad (Suc n) [] = 0 # zero_pad n []"
| "zero_pad (Suc n) (x # xs) = x # zero_pad n xs"

section \<open>Sequences of operations\<close>

text \<open>
  A caller's sequence of calls.  A call that throws ends the sequence: the table it would
  leave behind is not followed.
\<close>

datatype op = Put jsstring jsstring | GetOrPut jsstring | Del jsstring

fun op_key :: "op \<Rightarrow> jsstring" where
  "op_key (Put k v) = k"
| "op_key (GetOrPut k) = k"
| "op_key (Del k) = k"

fun apply_op :: "nat \<Rightarrow> Table \<Rightarrow> op \<Rightarrow> Table option" where
  "apply_op lg t (Put k v) =
     (case put lg t k v of (Inl e, t') \<Rightarrow> None | (Inr u, t') \<Rightarrow> Some t')"
| "apply_op lg t (GetOrPut k) =
     (case getOrPut lg t k of (Inl e, t') \<Rightarrow> None | (Inr r, t') \<Rightarrow> Some t')"
| "apply_op lg t (Del k) =
     (case del lg t k of (Inl e, t') \<Rightarrow> None | (Inr r, t') \<Rightarrow> Some t')"

fun run :: "nat \<Rightarrow> Table \<Rightarrow> op list \<Rightarrow> Table option" where
  "run lg t [] = Some t"
| "run lg t (x # xs) = (case apply_op lg t x of None \<Rightarrow> None | Some t' \<Rightarrow> run lg t' xs)"

text \<open>The tables that calls with legal keys reach from the empty table.\<close>

definition reaches :: "nat \<Rightarrow> op list \<Rightarrow> Table \<Rightarrow> bool" where
  "reaches lg ops t = (list_all (\<lambda>x. legal_key (op_key x)) ops \<and> run lg (init lg) ops = Some t)"

text \<open>
  The same with the calls that throw followed too: a call that throws leaves its table
  behind and the caller goes on.  Only a \<^verbatim>\<open>del\<close> that throws after it has changed the table
  (it ran off the array in its second loop) ends the sequence.
\<close>

fun apply_any :: "nat \<Rightarrow> Table \<Rightarrow> op \<Rightarrow> Table option" where
  "apply_any lg t (Put k v) = Some (snd (put lg t k v))"
| "apply_any lg t (GetOrPut k) = Some (snd (getOrPut lg t k))"
| "apply_any lg t (Del k) =
     (case del lg t k of
        (Inr r, t') \<Rightarrow> Some t'
      | (Inl e, t') \<Rightarrow> if t' = t then Some t' else None)"

fun run_any :: "nat \<Rightarrow> Table \<Rightarrow> op list \<Rightarrow> Table option" where
  "run_any lg t [] = Some t"
| "run_any lg t (x # xs) =
     (case apply_any lg t x of None \<Rightarrow> None | Some t' \<Rightarrow> run_any lg t' xs)"

subsection \<open>Example tables\<close>

text \<open>Capacity 8 (the table has 14 slots), filled by eight calls of \<^verbatim>\<open>put\<close>.\<close>

definition fill8 :: "op list" where
  "fill8 = [Put [0x00] [0x30], Put [0x10] [0x31], Put [0x20] [0x32], Put [0x30] [0x33],
            Put [0x40] [0x34], Put [0x50] [0x35], Put [0x60] [0x36], Put [0x70] [0x37] ]"

definition full8 :: Table where
  "full8 = \<lparr>entries =
      [\<lparr>key = [0x00], val = Some [0x30]\<rparr>, \<lparr>key = [0x10], val = Some [0x31]\<rparr>,
       \<lparr>key = [0x20], val = Some [0x32]\<rparr>, \<lparr>key = [0x30], val = Some [0x33]\<rparr>,
       \<lparr>key = [0x40], val = Some [0x34]\<rparr>, \<lparr>key = [0x50], val = Some [0x35]\<rparr>,
       \<lparr>key = [0x60], val = Some [0x36]\<rparr>, \<lparr>key = [0x70], val = Some [0x37]\<rparr>,
       \<lparr>key = EMPTY_KEY, val = None\<rparr>, \<lparr>key = EMPTY_KEY, val = None\<rparr>,
       \<lparr>key = EMPTY_KEY, val = None\<rparr>, \<lparr>key = EMPTY_KEY, val = None\<rparr>,
       \<lparr>key = EMPTY_KEY, val = None\<rparr>, \<lparr>key = EMPTY_KEY, val = None\<rparr>],
     len = 8\<rparr>"

text \<open>
  Where the loops stop: the first slot from \<open>i\<close> on whose key is not below \<open>k\<close>, the first
  slot from \<open>i\<close> on that holds the sentinel, and the first gap position from \<open>d\<close> on at
  which the second loop of \<^verbatim>\<open>del\<close> breaks.
\<close>

definition first_ge :: "Entry list \<Rightarrow> jsstring \<Rightarrow> nat \<Rightarrow> nat option" where
  "first_ge es k i = find (\<lambda>j. k \<le> key (es ! j)) [i..<length es]"

definition first_empty :: "Entry list \<Rightarrow> nat \<Rightarrow> nat option" where
  "first_empty es i = find (\<lambda>j. key (es ! j) = EMPTY_KEY) [i..<length es]"

definition first_stop :: "nat \<Rightarrow> Entry list \<Rightarrow> nat \<Rightarrow> nat option" where
  "first_stop lg es d =
     find (\<lambda>j. int j < hashToIndex lg (hash (key (es ! Suc j))) \<or> key (es ! Suc j) = EMPTY_KEY)
       [d..<length es - 1]"

text \<open>
  What the displacement chain and the backward shift leave in the array: \<open>x\<close> put at \<open>i\<close>
  with the slots \<open>i .. p - 1\<close> moved one to the right, and the slots \<open>d + 1 .. g + 1\<close>
  copied one to the left.
\<close>

definition shift_right :: "'a list \<Rightarrow> 'a \<Rightarrow> nat \<Rightarrow> nat \<Rightarrow> 'a list" where
  "shift_right xs x i p =
     map (\<lambda>j. if j < i \<or> p < j then xs ! j else if j = i then x else xs ! (j - 1)) [0..<length xs]"

definition shift_left :: "'a list \<Rightarrow> nat \<Rightarrow> nat \<Rightarrow> 'a list" where
  "shift_left xs d g = map (\<lambda>j. if d \<le> j \<and> j \<le> g then xs ! Suc j else xs ! j) [0..<length xs]"

subsection \<open>The invariant\<close>

text \<open>
  The keys of the array, slot by slot, and what holds of them in every table that the
  operations reach: an occupied slot \<open>i\<close> holds a legal key whose first byte is below
  \<^verbatim>\<open>0x80\<close>, the slot is not before the key's ideal bucket, every slot from the ideal
  bucket to \<open>i\<close> is occupied, and every occupied slot after \<open>i\<close> holds a greater key.
\<close>

definition keys :: "Table \<Rightarrow> jsstring list" where
  "keys t = map key (entries t)"

definition kinv :: "nat \<Rightarrow> jsstring list \<Rightarrow> bool" where
  "kinv lg ks \<longleftrightarrow>
     (\<forall>i<length ks. ks ! i \<noteq> EMPTY_KEY \<longrightarrow>
        legal_key (ks ! i) \<and> nonneg_key (ks ! i) \<and>
        hashToIndex lg (hash (ks ! i)) \<le> int i \<and>
        (\<forall>q. hashToIndex lg (hash (ks ! i)) \<le> int q \<and> q \<le> i \<longrightarrow> ks ! q \<noteq> EMPTY_KEY) \<and>
        (\<forall>j. i < j \<and> j < length ks \<and> ks ! j \<noteq> EMPTY_KEY \<longrightarrow> ks ! i < ks ! j))"

text \<open>
  Capacity 8 again: three keys of bucket 2 put out of order, one key of bucket 1, and the
  middle key of bucket 2 deleted.
\<close>

definition scenario :: "op list" where
  "scenario = [Put [0x41] [0x31], Put [0x43] [0x33], Put [0x42] [0x32], Put [0x21] [0x30],
               Del [0x42] ]"

text \<open>The same calls, with two calls among them that throw a TypeError.\<close>

definition scenario_throws :: "op list" where
  "scenario_throws =
     [Put [0x80] [0x39], Put [0x41] [0x31], Put [0x43] [0x33], Put [0x42] [0x32],
      Del [0x90], Put [0x21] [0x30], Del [0x42] ]"

definition scenario_table :: Table where
  "scenario_table = \<lparr>entries =
      [\<lparr>key = EMPTY_KEY, val = None\<rparr>, \<lparr>key = [0x21], val = Some [0x30]\<rparr>,
       \<lparr>key = [0x41], val = Some [0x31]\<rparr>, \<lparr>key = [0x43], val = Some [0x33]\<rparr>,
       \<lparr>key = EMPTY_KEY, val = None\<rparr>, \<lparr>key = EMPTY_KEY, val = None\<rparr>,
       \<lparr>key = EMPTY_KEY, val = None\<rparr>, \<lparr>key = EMPTY_KEY, val = None\<rparr>,
       \<lparr>key = EMPTY_KEY, val = None\<rparr>, \<lparr>key = EMPTY_KEY, val = None\<rparr>,
       \<lparr>key = EMPTY_KEY, val = None\<rparr>, \<lparr>key = EMPTY_KEY, val = None\<rparr>,
       \<lparr>key = EMPTY_KEY, val = None\<rparr>, \<lparr>key = EMPTY_KEY, val = None\<rparr>],
     len = 3\<rparr>"

text \<open>
  Capacity 64 (the table has 88 slots): 57 keys that all have the ideal bucket 31, the
  highest bucket of a key whose bucket is not negative, and the table they fill up to its
  last slot.
\<close>

definition crowd :: "op list" where
  "crowd = map (\<lambda>j. Put [0x7F, of_nat j] [0x30]) [0..<57]"

definition crowded :: Table where
  "crowded = \<lparr>entries =
       replicate 31 \<lparr>key = EMPTY_KEY, val = None\<rparr> @
       map (\<lambda>j. \<lparr>key = [0x7F, of_nat j], val = Some [0x30]\<rparr>) [0..<57],
     len = 57\<rparr>"

section \<open>The hash projection\<close>

declare get_loop.simps [simp del]
declare getOrPut_loop.simps [simp del]
declare del_find.simps [simp del]
declare del_shift.simps [simp del]

lemma or0_padded: "or0 (charCodeAt k i) = ucast (padded k i)"
  by (simp add: or0_def padded_def split: option.splits)

lemma legal_padded: "legal_key k \<Longrightarrow> padded k i \<le> 0xFE"
  by (auto simp: legal_key_def padded_def charCodeAt_def list_all_length)

lemma code_bounds: "legal_key k \<Longrightarrow> 0 \<le> code k i \<and> code k i \<le> 254"
  using legal_padded[of k i] by (simp add: code_def word_le_def)

lemma uint_or0: "uint (or0 (charCodeAt k i)) = code k i"
  by (simp add: or0_padded code_def uint_up_ucast is_up)

lemma or0_less: "legal_key k \<Longrightarrow> or0 (charCodeAt k i) < 256"
  using code_bounds[of k i] by (simp add: word_less_def uint_or0)

lemma byte_bit:
  fixes a :: "32 word"
  assumes "a < 256" and b: "bit a n"
  shows "n < 8"
proof -
  have "uint a < 2 ^ 8" using assms by (simp add: word_less_def)
  then have "take_bit 8 (uint a) = uint a" by (simp add: take_bit_int_eq_self)
  moreover have "bit (uint a) n" using b by (auto simp: bit_uint_iff dest: bit_imp_le_length)
  ultimately have "bit (take_bit 8 (uint a)) n" by simp
  then show "n < 8" by (simp add: bit_take_bit_iff)
qed

text \<open>The four bytes do not overlap, so the bitwise or of the source is a sum.\<close>

lemma pack_or_plus:
  fixes a b c :: "32 word"
  assumes "a < 256" "b < 256" "c < 256"
  shows "push_bit 24 a OR push_bit 16 b OR push_bit 8 c OR a =
         push_bit 24 a + push_bit 16 b + push_bit 8 c + a"
proof -
  have 1: "push_bit 8 c AND a = 0"
    by (auto simp: bit_eq_iff bit_simps dest: byte_bit[OF assms(1)])
  have 2: "push_bit 16 b AND (push_bit 8 c OR a) = 0"
    by (auto simp: bit_eq_iff bit_simps dest: byte_bit[OF assms(1)] byte_bit[OF assms(3)])
  have 3: "push_bit 24 a AND (push_bit 16 b OR (push_bit 8 c OR a)) = 0"
    by (auto simp: bit_eq_iff bit_simps
        dest: byte_bit[OF assms(1)] byte_bit[OF assms(3)] byte_bit[OF assms(2)])
  have "push_bit 24 a + push_bit 16 b + push_bit 8 c + a =
        push_bit 24 a + (push_bit 16 b + (push_bit 8 c + a))"
    by simp
  also have "\<dots> = push_bit 24 a + (push_bit 16 b + (push_bit 8 c OR a))"
    by (simp only: disjunctive_add_eq_or[OF 1])
  also have "\<dots> = push_bit 24 a + (push_bit 16 b OR (push_bit 8 c OR a))"
    by (simp only: disjunctive_add_eq_or[OF 2])
  also have "\<dots> = push_bit 24 a OR (push_bit 16 b OR (push_bit 8 c OR a))"
    by (simp only: disjunctive_add_eq_or[OF 3])
  finally show ?thesis by (simp add: ac_simps)
qed

lemma pack_uint:
  fixes a b c :: "32 word"
  assumes "a < 256" "b < 256" "c < 256"
  shows "uint (push_bit 24 a OR push_bit 16 b OR push_bit 8 c OR a) =
         uint a * 16777216 + uint b * 65536 + uint c * 256 + uint a"
proof -
  have a: "uint a < 256" and b: "uint b < 256" and c: "uint c < 256"
    using assms by (simp_all add: word_less_def)
  have "uint (push_bit 24 a + push_bit 16 b + push_bit 8 c + a) =
        (uint a * 16777216 + uint b * 65536 + uint c * 256 + uint a) mod 2 ^ 32"
    by (simp add: push_bit_eq_mult uint_word_ariths mod_simps)
  also have "\<dots> = uint a * 16777216 + uint b * 65536 + uint c * 256 + uint a"
    using a b c by (simp add: mod_pos_pos_trivial)
  finally show ?thesis by (simp add: pack_or_plus[OF assms])
qed

lemma uint_hash:
  "legal_key k \<Longrightarrow>
   uint (hash k) = code k 0 * 16777216 + code k 1 * 65536 + code k 2 * 256 + code k 0"
  unfolding hash_def
  by (simp only: pack_uint[OF or0_less or0_less or0_less] uint_or0)

lemma prefix3_less_iff:
  "prefix3 a < prefix3 b \<longleftrightarrow>
     code a 0 < code b 0 \<or> code a 0 = code b 0 \<and>
       (code a 1 < code b 1 \<or> code a 1 = code b 1 \<and> code a 2 < code b 2)"
  by (auto simp: prefix3_def code_def word_less_def word_uint_eq_iff)

lemma prefix3_le_iff:
  "prefix3 a \<le> prefix3 b \<longleftrightarrow>
     code a 0 < code b 0 \<or> code a 0 = code b 0 \<and>
       (code a 1 < code b 1 \<or> code a 1 = code b 1 \<and> code a 2 \<le> code b 2)"
  by (auto simp: prefix3_def code_def word_less_def word_le_def word_uint_eq_iff)

text \<open>
  C1.  The ideal bucket of a legal key is not always in \<open>[0, capacity)\<close>: for the one-byte
  key \<^verbatim>\<open>"\x80"\<close> the source's configuration (\<open>CAPACITY = 1 << 24\<close>, \<open>SHIFT = 8\<close>) computes
  the hash \<open>-2147483520\<close> and the bucket \<open>-8388608\<close>, because \<^verbatim>\<open><<\<close> and \<^verbatim>\<open>>>\<close> are signed.
\<close>

theorem C1_bucket_negative:
  "legal_key [0x80] \<and> sint (hash [0x80]) = - 2147483520 \<and>
   hashToIndex lg_src (hash [0x80]) = - 8388608 \<and>
   \<not> (0 \<le> hashToIndex lg_src (hash [0x80]) \<and>
      hashToIndex lg_src (hash [0x80]) < CAPACITY lg_src)"
  by (simp add: legal_key_def hashToIndex_def hash_def SHIFT_def charCodeAt_def or0_def
      lg_src_def)

text \<open>
  Read as unsigned 32-bit integers (the order of \<open>32 word\<close>), the bit patterns that
  \<^const>\<open>hash\<close> computes preserve the order of the first three bytes, zero-padded.
\<close>

lemma hash_unsigned_order:
  assumes "legal_key a" "legal_key b" "prefix3 a < prefix3 b"
  shows "hash a < hash b"
proof -
  note A = code_bounds[OF assms(1)] and B = code_bounds[OF assms(2)]
  have "uint (hash a) < uint (hash b)"
    using assms(3) A[of 0] A[of 1] A[of 2] B[of 0] B[of 1] B[of 2]
    unfolding uint_hash[OF assms(1)] uint_hash[OF assms(2)] prefix3_less_iff
    by auto
  then show ?thesis by (simp add: word_less_def)
qed

text \<open>
  C2.  The hash that the program computes does not preserve the order of the prefix.
  What \<^verbatim>\<open>hash\<close> returns is the signed reading of the 32 bits, and the buckets come from
  it by the signed shift: the keys \<^verbatim>\<open>"\x7f\xfe"\<close> and \<^verbatim>\<open>"\x80"\<close> differ in their first byte
  and the first is the smaller, but \<^verbatim>\<open>hash\<close> gives \<open>2147352703\<close> and \<open>-2147483520\<close> and
  the buckets are \<open>8388096\<close> and \<open>-8388608\<close>.  And the fourth byte of the value is byte 0
  again: \<^verbatim>\<open>"abcd"\<close> and \<^verbatim>\<open>"abce"\<close> differ in their fourth byte and have the same hash.
\<close>

theorem C2_hash_order_lost:
  "legal_key [0x7F, 0xFE] \<and> legal_key [0x80] \<and> [0x7F, 0xFE] < [0x80 :: 16 word] \<and>
   prefix3 [0x7F, 0xFE] < prefix3 [0x80] \<and>
   sint (hash [0x7F, 0xFE]) = 2147352703 \<and> sint (hash [0x80]) = - 2147483520 \<and>
   \<not> sint (hash [0x7F, 0xFE]) < sint (hash [0x80]) \<and>
   hashToIndex lg_src (hash [0x7F, 0xFE]) = 8388096 \<and>
   hashToIndex lg_src (hash [0x80]) = - 8388608 \<and>
   legal_key [0x61, 0x62, 0x63, 0x64] \<and> legal_key [0x61, 0x62, 0x63, 0x65] \<and>
   [0x61, 0x62, 0x63, 0x64] < [0x61, 0x62, 0x63, 0x65 :: 16 word] \<and>
   hash [0x61, 0x62, 0x63, 0x64] = hash [0x61, 0x62, 0x63, 0x65]"
  by (simp add: legal_key_def prefix3_def padded_def hashToIndex_def hash_def SHIFT_def
      charCodeAt_def or0_def lg_src_def)

text \<open>
  C10.  The hash reads the positions 0, 1 and 2 only: keys that agree there (a missing
  position agreeing with a missing one) have the same hash and the same ideal bucket.
\<close>

theorem C10_hash_first_three:
  assumes "charCodeAt k1 0 = charCodeAt k2 0"
    and "charCodeAt k1 1 = charCodeAt k2 1"
    and "charCodeAt k1 2 = charCodeAt k2 2"
  shows "hash k1 = hash k2 \<and> hashToIndex lg (hash k1) = hashToIndex lg (hash k2)"
  using assms by (simp add: hash_def)

theorem C10_hash_first_three_witness:
  "charCodeAt [0x61, 0x62, 0x63, 0x64] 0 = charCodeAt [0x61, 0x62, 0x63, 0x78, 0x79, 0x7A] 0 \<and>
   charCodeAt [0x61, 0x62, 0x63, 0x64] 1 = charCodeAt [0x61, 0x62, 0x63, 0x78, 0x79, 0x7A] 1 \<and>
   charCodeAt [0x61, 0x62, 0x63, 0x64] 2 = charCodeAt [0x61, 0x62, 0x63, 0x78, 0x79, 0x7A] 2 \<and>
   hash [0x61, 0x62, 0x63, 0x64] = hash [0x61, 0x62, 0x63, 0x78, 0x79, 0x7A] \<and>
   hashToIndex lg_src (hash [0x61, 0x62, 0x63, 0x64]) =
     hashToIndex lg_src (hash [0x61, 0x62, 0x63, 0x78, 0x79, 0x7A])"
proof -
  have 0: "charCodeAt [0x61, 0x62, 0x63, 0x64] 0 = charCodeAt [0x61, 0x62, 0x63, 0x78, 0x79, 0x7A] 0"
    and 1: "charCodeAt [0x61, 0x62, 0x63, 0x64] 1 = charCodeAt [0x61, 0x62, 0x63, 0x78, 0x79, 0x7A] 1"
    and 2: "charCodeAt [0x61, 0x62, 0x63, 0x64] 2 = charCodeAt [0x61, 0x62, 0x63, 0x78, 0x79, 0x7A] 2"
    by (simp_all add: charCodeAt_def)
  show ?thesis
    using 0 1 2 C10_hash_first_three[OF 0 1 2, of lg_src] by simp
qed

section \<open>The capacity guard\<close>

lemma getOrPut_loop_not_MapFull: "fst (getOrPut_loop k t it i ins) \<noteq> Inl MapFull"
proof (induction k t it i ins rule: getOrPut_loop.induct)
  case (1 k t it i insertedAt)
  show ?case
    using 1
    by (subst getOrPut_loop.simps) (auto simp: Let_def split: option.splits)
qed

lemma reaches_full8: "reaches 3 fill8 full8"
  by code_simp

text \<open>
  C3, as stated, fails: on the full table of capacity 8 the key \<^verbatim>\<open>"\x00"\<close> is present
  (\<^verbatim>\<open>get\<close> returns its value), and \<^verbatim>\<open>put\<close> of that key throws the map-full error instead
  of overwriting in place.
\<close>

theorem C3_counterexample:
  "reaches 3 fill8 full8 \<and> len full8 = CAPACITY 3 \<and>
   get 3 full8 [0x00] = Inr (Value (Some [0x30])) \<and>
   put 3 full8 [0x00] [0x39] = (Inl MapFull, full8)"
  by code_simp

text \<open>
  C3, amended.  \<^verbatim>\<open>getOrPut\<close> and \<^verbatim>\<open>put\<close> throw the map-full error if and only if
  \<open>len \<ge> capacity\<close>, whether or not the key is present; when they do, the table (entries
  and \<open>len\<close>) is exactly as before the call.
\<close>

theorem C3_map_full:
  "(fst (getOrPut lg t k) = Inl MapFull \<longleftrightarrow> CAPACITY lg \<le> len t) \<and>
   (fst (put lg t k v) = Inl MapFull \<longleftrightarrow> CAPACITY lg \<le> len t) \<and>
   (CAPACITY lg \<le> len t \<longrightarrow>
      getOrPut lg t k = (Inl MapFull, t) \<and> put lg t k v = (Inl MapFull, t))"
proof -
  have g: "fst (getOrPut lg t k) = Inl MapFull \<longleftrightarrow> CAPACITY lg \<le> len t"
    using getOrPut_loop_not_MapFull by (simp add: getOrPut_def)
  have "fst (put lg t k v) = Inl MapFull \<longleftrightarrow> fst (getOrPut lg t k) = Inl MapFull"
    by (cases "getOrPut lg t k") (auto simp: put_def split: sum.splits)
  with g show ?thesis
    by (auto simp: getOrPut_def put_def)
qed

theorem C3_map_full_witness:
  "CAPACITY 3 \<le> len full8 \<and> fst (getOrPut 3 full8 [0x00]) = Inl MapFull \<and>
   fst (put 3 full8 [0x00] [0x39]) = Inl MapFull \<and>
   getOrPut 3 full8 [0x00] = (Inl MapFull, full8) \<and>
   put 3 full8 [0x00] [0x39] = (Inl MapFull, full8)"
proof -
  have h: "CAPACITY 3 \<le> len full8"
    by (simp add: CAPACITY_def full8_def)
  show ?thesis
    using h C3_map_full[of 3 full8 "[0x00]" "[0x39]"] by simp
qed

section \<open>The loops in closed form\<close>

lemma find_upt_Some_iff:
  "find P [i..<n] = Some j \<longleftrightarrow> i \<le> j \<and> j < n \<and> P j \<and> (\<forall>x. i \<le> x \<and> x < j \<longrightarrow> \<not> P x)"
proof (induction "n - i" arbitrary: i)
  case 0
  then show ?case by auto
next
  case (Suc d)
  then have lt: "i < n" by simp
  have IH: "find P [Suc i..<n] = Some j \<longleftrightarrow>
     Suc i \<le> j \<and> j < n \<and> P j \<and> (\<forall>x. Suc i \<le> x \<and> x < j \<longrightarrow> \<not> P x)"
    using Suc(1)[of "Suc i"] Suc(2) by simp
  show ?case
  proof (cases "P i")
    case True
    then show ?thesis using lt
      by (auto simp: upt_conv_Cons intro: le_antisym)
  next
    case False
    then show ?thesis using lt IH
      by (auto simp: upt_conv_Cons Suc_le_eq) (metis le_eq_less_or_eq)+
  qed
qed

lemma find_upt_None_iff:
  "find P [i..<n] = None \<longleftrightarrow> (\<forall>x. i \<le> x \<and> x < n \<longrightarrow> \<not> P x)"
  by (auto simp: find_None_iff)

lemma at_nat: "at es (int i) = (if i < length es then Some (es ! i) else None)"
  by (simp add: at_def)

lemma get_loop_first_ge:
  "get_loop es k (int i) =
     (case first_ge es k i of
        None \<Rightarrow> Inl TypeError
      | Some j \<Rightarrow> if key (es ! j) = k then Inr (Value (val (es ! j))) else Inr Null)"
proof (induction "length es - i" arbitrary: i)
  case 0
  then show ?case
    by (subst get_loop.simps) (simp add: at_nat first_ge_def)
next
  case (Suc d)
  then have lt: "i < length es" by simp
  have IH: "get_loop es k (int (Suc i)) =
     (case first_ge es k (Suc i) of
        None \<Rightarrow> Inl TypeError
      | Some j \<Rightarrow> if key (es ! j) = k then Inr (Value (val (es ! j))) else Inr Null)"
    using Suc(1)[of "Suc i"] Suc(2) by simp
  have step: "int i + 1 = int (Suc i)" by simp
  show ?case
    using lt IH
    by (subst get_loop.simps) (simp add: at_nat first_ge_def upt_conv_Cons step del: of_nat_Suc)
qed


lemma del_find_first_ge:
  "del_find es k (int i) =
     (case first_ge es k i of
        None \<Rightarrow> Inl TypeError
      | Some j \<Rightarrow> if key (es ! j) \<noteq> k then Inr None else Inr (Some (int j)))"
proof (induction "length es - i" arbitrary: i)
  case 0
  then show ?case
    by (subst del_find.simps) (simp add: at_nat first_ge_def)
next
  case (Suc d)
  then have lt: "i < length es" by simp
  have IH: "del_find es k (int (Suc i)) =
     (case first_ge es k (Suc i) of
        None \<Rightarrow> Inl TypeError
      | Some j \<Rightarrow> if key (es ! j) \<noteq> k then Inr None else Inr (Some (int j)))"
    using Suc(1)[of "Suc i"] Suc(2) by simp
  have step: "int i + 1 = int (Suc i)" by simp
  show ?case
    using lt IH
    by (subst del_find.simps) (simp add: at_nat first_ge_def upt_conv_Cons step del: of_nat_Suc)
qed

lemma getOrPut_loop_first_ge:
  "getOrPut_loop k t it (int i) ins =
     (case first_ge (entries t) k i of
        None \<Rightarrow> (Inl TypeError, t)
      | Some j \<Rightarrow> getOrPut_loop k t it (int j) ins)"
proof (induction "length (entries t) - i" arbitrary: i)
  case 0
  then show ?case
    by (subst getOrPut_loop.simps) (simp add: at_nat first_ge_def)
next
  case (Suc d)
  then have lt: "i < length (entries t)" by simp
  have IH: "getOrPut_loop k t it (int (Suc i)) ins =
     (case first_ge (entries t) k (Suc i) of
        None \<Rightarrow> (Inl TypeError, t)
      | Some j \<Rightarrow> getOrPut_loop k t it (int j) ins)"
    using Suc(1)[of "Suc i"] Suc(2) by simp
  have step: "int i + 1 = int (Suc i)" by simp
  show ?case
  proof (cases "k \<le> key (entries t ! i)")
    case True
    then show ?thesis using lt by (simp add: first_ge_def upt_conv_Cons)
  next
    case False
    then show ?thesis
      using lt IH
      by (subst getOrPut_loop.simps) (simp add: at_nat first_ge_def upt_conv_Cons step del: of_nat_Suc)
  qed
qed

lemma length_shift_right [simp]: "length (shift_right xs x i p) = length xs"
  by (simp add: shift_right_def)

lemma nth_shift_right:
  "j < length xs \<Longrightarrow>
   shift_right xs x i p ! j = (if j < i \<or> p < j then xs ! j else if j = i then x else xs ! (j - 1))"
  by (simp add: shift_right_def)

lemma shift_right_base: "p < length xs \<Longrightarrow> xs[p := x] = shift_right xs x p p"
  by (rule nth_equalityI) (auto simp: nth_shift_right nth_list_update)

lemma shift_right_step:
  "i < p \<Longrightarrow> p < length xs \<Longrightarrow>
   shift_right (xs[i := x]) (xs ! i) (Suc i) p = shift_right xs x i p"
  by (rule nth_equalityI) (auto simp: nth_shift_right nth_list_update)

lemma map_shift_right: "map f (shift_right xs x i p) = shift_right (map f xs) (f x) i p"
  by (rule nth_equalityI) (auto simp: nth_shift_right)

lemma first_empty_update:
  "first_empty (es[i := e]) (Suc i) = first_empty es (Suc i)"
  unfolding first_empty_def
  by (rule find_cong) auto

lemma getOrPut_loop_chain:
  assumes "first_empty (entries t) i = Some p"
    and "\<forall>j. i \<le> j \<and> j \<le> p \<longrightarrow> k \<le> key (entries t ! j) \<and> key (entries t ! j) \<noteq> k"
  shows "getOrPut_loop k t it (int i) ins =
     (Inr \<lparr>exists = False, index = (case ins of Some a \<Rightarrow> a | None \<Rightarrow> int i)\<rparr>,
      t\<lparr>entries := shift_right (entries t) it i p, len := len t + 1\<rparr>)"
  using assms
proof (induction "p - i" arbitrary: i t it ins)
  case 0
  then have ip: "i = p" and pn: "p < length (entries t)" and e: "key (entries t ! p) = EMPTY_KEY"
    by (auto simp: first_empty_def find_upt_Some_iff)
  have here: "k \<le> key (entries t ! p)" "key (entries t ! p) \<noteq> k"
    using 0(3) ip by auto
  show ?case
    using here pn e unfolding ip
    by (subst getOrPut_loop.simps) (simp add: at_nat shift_right_base)
next
  case (Suc d)
  from Suc(3) have ip: "i \<le> p" and pn: "p < length (entries t)"
    and e: "key (entries t ! p) = EMPTY_KEY"
    and ne: "\<forall>x. i \<le> x \<and> x < p \<longrightarrow> key (entries t ! x) \<noteq> EMPTY_KEY"
    by (auto simp: first_empty_def find_upt_Some_iff)
  from Suc(2) ip have lt: "i < p" by simp
  let ?t1 = "t\<lparr>entries := (entries t)[i := it]\<rparr>"
  have fe: "first_empty (entries ?t1) (Suc i) = Some p"
    using Suc(3) lt pn ne e
    by (simp add: first_empty_update) (auto simp: first_empty_def find_upt_Some_iff)
  have hyp: "\<forall>j. Suc i \<le> j \<and> j \<le> p \<longrightarrow> k \<le> key (entries ?t1 ! j) \<and> key (entries ?t1 ! j) \<noteq> k"
    using Suc(4) by auto
  have IH: "getOrPut_loop k ?t1 (entries t ! i) (int (Suc i)) (Some (case ins of Some a \<Rightarrow> a | None \<Rightarrow> int i)) =
     (Inr \<lparr>exists = False, index = (case ins of Some a \<Rightarrow> a | None \<Rightarrow> int i)\<rparr>,
      ?t1\<lparr>entries := shift_right (entries ?t1) (entries t ! i) (Suc i) p, len := len ?t1 + 1\<rparr>)"
    using Suc(1)[of "Suc i" ?t1 "entries t ! i" "Some (case ins of Some a \<Rightarrow> a | None \<Rightarrow> int i)", OF _ fe hyp] Suc(2)
    by simp
  have step: "int i + 1 = int (Suc i)" by simp
  have here: "k \<le> key (entries t ! i)" "key (entries t ! i) \<noteq> k" "key (entries t ! i) \<noteq> EMPTY_KEY"
    using Suc(4) ne lt by auto
  have ins: "(case ins of None \<Rightarrow> Some (int i) | Some a \<Rightarrow> Some a) = Some (case ins of Some a \<Rightarrow> a | None \<Rightarrow> int i)"
    by (cases ins) auto
  show ?case
    using here lt pn
    by (subst getOrPut_loop.simps)
       (simp add: at_nat step ins IH shift_right_step del: of_nat_Suc)
qed


lemma getOrPut_loop_chain_None:
  assumes "first_empty (entries t) i = None"
    and "\<forall>j. i \<le> j \<and> j < length (entries t) \<longrightarrow> k \<le> key (entries t ! j) \<and> key (entries t ! j) \<noteq> k"
  shows "fst (getOrPut_loop k t it (int i) ins) = Inl TypeError"
  using assms
proof (induction "length (entries t) - i" arbitrary: i t it ins)
  case 0
  then show ?case
    by (subst getOrPut_loop.simps) (simp add: at_nat)
next
  case (Suc d)
  then have lt: "i < length (entries t)" by simp
  from Suc(3) have ne: "\<forall>x. i \<le> x \<and> x < length (entries t) \<longrightarrow> key (entries t ! x) \<noteq> EMPTY_KEY"
    by (simp add: first_empty_def find_upt_None_iff)
  let ?t1 = "t\<lparr>entries := (entries t)[i := it]\<rparr>"
  have fe: "first_empty (entries ?t1) (Suc i) = None"
    using ne by (simp add: first_empty_update) (simp add: first_empty_def find_upt_None_iff)
  have hyp: "\<forall>j. Suc i \<le> j \<and> j < length (entries ?t1) \<longrightarrow>
               k \<le> key (entries ?t1 ! j) \<and> key (entries ?t1 ! j) \<noteq> k"
    using Suc(4) by auto
  have IH: "fst (getOrPut_loop k ?t1 (entries t ! i) (int (Suc i)) ins') = Inl TypeError" for ins'
    using Suc(1)[of ?t1 "Suc i" "entries t ! i" ins', OF _ fe hyp] Suc(2) by simp
  have step: "int i + 1 = int (Suc i)" by simp
  have here: "k \<le> key (entries t ! i)" "key (entries t ! i) \<noteq> k" "key (entries t ! i) \<noteq> EMPTY_KEY"
    using Suc(4) ne lt by auto
  show ?case
    using here lt
    by (subst getOrPut_loop.simps) (simp add: at_nat step IH del: of_nat_Suc)
qed

lemma getOrPut_loop_no_TypeError:
  assumes "i \<le> p" "p < length (entries t)" "key (entries t ! p) = EMPTY_KEY" "k < EMPTY_KEY"
  shows "fst (getOrPut_loop k t it (int i) ins) \<noteq> Inl TypeError"
  using assms
proof (induction "p - i" arbitrary: i t it ins)
  case 0
  then have ip: "i = p" by simp
  show ?case
    using 0(3,4,5) unfolding ip
    by (subst getOrPut_loop.simps) (auto simp: at_nat)
next
  case (Suc d)
  then have lt: "i < p" by simp
  let ?t1 = "t\<lparr>entries := (entries t)[i := it]\<rparr>"
  have IH1: "fst (getOrPut_loop k ?t1 it' (int (Suc i)) ins') \<noteq> Inl TypeError" for it' ins'
    using Suc(1)[of "Suc i" ?t1 it' ins'] Suc(2) lt Suc(4,5,6) by simp
  have IH2: "fst (getOrPut_loop k t it (int (Suc i)) ins) \<noteq> Inl TypeError"
    using Suc(1)[of "Suc i" t it ins] Suc(2) lt Suc(4,5,6) by simp
  have step: "int i + 1 = int (Suc i)" by simp
  show ?case
    using lt Suc(4) IH1 IH2
    by (subst getOrPut_loop.simps) (simp add: at_nat step Let_def del: of_nat_Suc)
qed

lemma length_shift_left [simp]: "length (shift_left xs d g) = length xs"
  by (simp add: shift_left_def)

lemma nth_shift_left:
  "j < length xs \<Longrightarrow>
   shift_left xs d g ! j = (if d \<le> j \<and> j \<le> g then xs ! Suc j else xs ! j)"
  by (simp add: shift_left_def)

lemma shift_left_base: "g < length xs \<Longrightarrow> xs[g := xs ! Suc g] = shift_left xs g g"
  by (rule nth_equalityI) (auto simp: nth_shift_left nth_list_update)

lemma shift_left_step:
  "d < g \<Longrightarrow> Suc g < length xs \<Longrightarrow>
   shift_left (xs[d := xs ! Suc d]) (Suc d) g = shift_left xs d g"
  by (rule nth_equalityI) (auto simp: nth_shift_left nth_list_update)

lemma map_shift_left:
  "Suc g < length xs \<Longrightarrow> map f (shift_left xs d g) = shift_left (map f xs) d g"
  by (rule nth_equalityI) (auto simp: nth_shift_left)

lemma first_stop_update:
  "first_stop lg (es[d := e]) (Suc d) = first_stop lg es (Suc d)"
  unfolding first_stop_def
  by (rule find_cong) auto

lemma del_shift_stop:
  assumes "first_stop lg (entries t) d = Some g"
  shows "del_shift lg t (int d) = (Inr (int g), t\<lparr>entries := shift_left (entries t) d g\<rparr>)"
  using assms
proof (induction "g - d" arbitrary: d t)
  case 0
  then have dg: "d = g" and gn: "Suc g < length (entries t)"
    and stop: "int g < hashToIndex lg (hash (key (entries t ! Suc g))) \<or> key (entries t ! Suc g) = EMPTY_KEY"
    by (auto simp: first_stop_def find_upt_Some_iff)
  have step: "int g + 1 = int (Suc g)" by simp
  show ?case
    using gn stop unfolding dg
    by (subst del_shift.simps) (auto simp add: at_nat step Let_def shift_left_base simp del: of_nat_Suc)
next
  case (Suc n)
  from Suc(3) have dg: "d \<le> g" and gn: "Suc g < length (entries t)"
    and cont: "\<forall>x. d \<le> x \<and> x < g \<longrightarrow>
        \<not> (int x < hashToIndex lg (hash (key (entries t ! Suc x))) \<or> key (entries t ! Suc x) = EMPTY_KEY)"
    by (auto simp: first_stop_def find_upt_Some_iff)
  from Suc(2) dg have lt: "d < g" by simp
  let ?t1 = "t\<lparr>entries := (entries t)[d := entries t ! Suc d]\<rparr>"
  have fs: "first_stop lg (entries ?t1) (Suc d) = Some g"
    using Suc(3) lt
    by (simp add: first_stop_update) (auto simp: first_stop_def find_upt_Some_iff)
  have IH: "del_shift lg ?t1 (int (Suc d)) = (Inr (int g), ?t1\<lparr>entries := shift_left (entries ?t1) (Suc d) g\<rparr>)"
    using Suc(1)[of "Suc d" ?t1, OF _ fs] Suc(2) by simp
  have step: "int d + 1 = int (Suc d)" by simp
  have here: "\<not> (int d < hashToIndex lg (hash (key (entries t ! Suc d))) \<or> key (entries t ! Suc d) = EMPTY_KEY)"
    using cont lt by auto
  show ?case
    using here lt gn
    by (subst del_shift.simps) (simp add: at_nat step Let_def IH shift_left_step del: of_nat_Suc)
qed

lemma del_shift_None:
  assumes "first_stop lg (entries t) d = None"
  shows "fst (del_shift lg t (int d)) = Inl TypeError"
  using assms
proof (induction "length (entries t) - Suc d" arbitrary: d t)
  case 0
  then show ?case
    by (subst del_shift.simps) (simp add: at_def)
next
  case (Suc n)
  then have lt: "Suc d < length (entries t)" by simp
  from Suc(3) have cont: "\<forall>x. d \<le> x \<and> x < length (entries t) - 1 \<longrightarrow>
        \<not> (int x < hashToIndex lg (hash (key (entries t ! Suc x))) \<or> key (entries t ! Suc x) = EMPTY_KEY)"
    by (simp add: first_stop_def find_upt_None_iff)
  let ?t1 = "t\<lparr>entries := (entries t)[d := entries t ! Suc d]\<rparr>"
  have fs: "first_stop lg (entries ?t1) (Suc d) = None"
    using cont
    by (simp add: first_stop_update) (simp add: first_stop_def find_upt_None_iff)
  have IH: "fst (del_shift lg ?t1 (int (Suc d))) = Inl TypeError"
    using Suc(1)[of ?t1 "Suc d", OF _ fs] Suc(2) by simp
  have step: "int d + 1 = int (Suc d)" by simp
  have here: "\<not> (int d < hashToIndex lg (hash (key (entries t ! Suc d))) \<or> key (entries t ! Suc d) = EMPTY_KEY)"
    using cont lt by auto
  show ?case
    using here lt
    by (subst del_shift.simps) (simp add: at_nat step Let_def IH del: of_nat_Suc)
qed

section \<open>Monotonicity of the ideal bucket\<close>

lemma padded_Nil: "padded [] i = 0"
  by (simp add: padded_def charCodeAt_def)

lemma padded_Cons_0: "padded (x # xs) 0 = x"
  by (simp add: padded_def charCodeAt_def)

lemma padded_Cons_Suc: "padded (x # xs) (Suc i) = padded xs i"
  by (simp add: padded_def charCodeAt_def)

lemma word0_less_or_eq: "(0::16 word) < y \<or> 0 = y"
  using word_neq_0_conv by blast

lemma zero_pad_mono: "a \<le> b \<Longrightarrow> zero_pad n a \<le> zero_pad n b"
proof (induction n arbitrary: a b)
  case 0
  then show ?case by simp
next
  case (Suc n)
  show ?case
  proof (cases a)
    case Nil
    then show ?thesis
      using Suc.IH[of "[]" "tl b"] word0_less_or_eq by (cases b) auto
  next
    case (Cons x xs)
    then show ?thesis
      using Suc.prems Suc.IH[of xs "tl b"] by (cases b) auto
  qed
qed

lemma prefix3_zero_pad: "prefix3 k = zero_pad 3 k"
proof -
  have "zero_pad 3 k = [padded k 0, padded k 1, padded k 2]"
    unfolding numeral_3_eq_3
    apply (cases k; simp add: padded_Nil padded_Cons_0 padded_Cons_Suc numeral_2_eq_2)
    subgoal for x xs
      apply (cases xs; simp add: padded_Nil padded_Cons_0 padded_Cons_Suc)
      subgoal for y ys
        by (cases ys; simp add: padded_Nil padded_Cons_0 padded_Cons_Suc)
      done
    done
  then show ?thesis by (simp add: prefix3_def)
qed

text \<open>The zero-padded prefix is monotone in the key, for the order of the whole keys.\<close>

lemma key_le_prefix3: "a \<le> b \<Longrightarrow> prefix3 a \<le> prefix3 b"
  by (simp add: prefix3_zero_pad zero_pad_mono)

lemma uint_hash_mono:
  assumes "legal_key a" "legal_key b" "a \<le> b"
  shows "uint (hash a) \<le> uint (hash b)"
proof -
  note A = code_bounds[OF assms(1)] and B = code_bounds[OF assms(2)]
  show ?thesis
    using key_le_prefix3[OF assms(3)] A[of 0] A[of 1] A[of 2] B[of 0] B[of 1] B[of 2]
    unfolding uint_hash[OF assms(1)] uint_hash[OF assms(2)] prefix3_le_iff
    by auto
qed

lemma uint_hash_less:
  assumes "legal_key k" "nonneg_key k"
  shows "uint (hash k) < 2 ^ 31"
proof -
  have "code k 0 \<le> 127" using assms(2) by (simp add: nonneg_key_def code_def word_le_def)
  then show ?thesis
    using code_bounds[OF assms(1), of 1] code_bounds[OF assms(1), of 2]
      code_bounds[OF assms(1), of 0]
    by (simp add: uint_hash[OF assms(1)])
qed

lemma sint_hash_nonneg:
  assumes "legal_key k" "nonneg_key k"
  shows "sint (hash k) = uint (hash k)"
proof -
  have "- (2 ^ 31) \<le> (0::int)" by simp
  also have "0 \<le> uint (hash k)" by simp
  finally have "- (2 ^ 31) \<le> uint (hash k)" .
  then show ?thesis
    unfolding sint_uint
    using uint_hash_less[OF assms] by (intro signed_take_bit_int_eq_self) simp_all
qed

lemma SHIFT_mod: "1 \<le> lg \<Longrightarrow> lg \<le> 30 \<Longrightarrow> SHIFT lg mod 32 = 32 - lg"
  by (simp add: SHIFT_def)

lemma hashToIndex_nonneg:
  assumes "legal_key k" "nonneg_key k" "1 \<le> lg" "lg \<le> 30"
  shows "hashToIndex lg (hash k) = uint (hash k) div 2 ^ (32 - lg)"
  by (simp add: hashToIndex_def sint_signed_drop_bit_eq SHIFT_mod[OF assms(3,4)]
      sint_hash_nonneg[OF assms(1,2)] drop_bit_eq_div)

lemma hashToIndex_mono:
  assumes "legal_key a" "nonneg_key a" "legal_key b" "nonneg_key b"
    and "1 \<le> lg" "lg \<le> 30" "a \<le> b"
  shows "hashToIndex lg (hash a) \<le> hashToIndex lg (hash b)"
  unfolding hashToIndex_nonneg[OF assms(1,2,5,6)] hashToIndex_nonneg[OF assms(3,4,5,6)]
  by (rule zdiv_mono1[OF uint_hash_mono[OF assms(1,3,7)] ]) simp

lemma bucket_less_imp_key_less:
  assumes "legal_key a" "nonneg_key a" "legal_key b" "nonneg_key b"
    and "1 \<le> lg" "lg \<le> 30"
    and "hashToIndex lg (hash a) < hashToIndex lg (hash b)"
  shows "a < b"
proof (rule ccontr)
  assume "\<not> a < b"
  then have "b \<le> a" by simp
  from hashToIndex_mono[OF assms(3,4,1,2,5,6) this] assms(7) show False by simp
qed

lemma int_div_less:
  fixes u A B :: int
  assumes "u < A * B" "0 < B"
  shows "u div B < A"
proof (rule ccontr)
  assume "\<not> u div B < A"
  then have "A * B \<le> (u div B) * B"
    using assms(2) by (simp add: mult_right_mono)
  also have "\<dots> \<le> u"
    using assms(2) div_mult_mod_eq[of u B] pos_mod_sign[of B u] by linarith
  finally show False using assms(1) by simp
qed

text \<open>
  With the top bit of the first byte clear the bucket lies in the lower half of
  \<open>[0, capacity)\<close>; with it set the bucket is negative.
\<close>

lemma hashToIndex_range:
  assumes "legal_key k" "nonneg_key k" "1 \<le> lg" "lg \<le> 30"
  shows "0 \<le> hashToIndex lg (hash k) \<and> 2 * hashToIndex lg (hash k) < CAPACITY lg"
proof -
  have "(2::int) ^ 31 = 2 ^ (lg - 1) * 2 ^ (32 - lg)"
    using assms(3,4) by (simp flip: power_add)
  then have "uint (hash k) div 2 ^ (32 - lg) < 2 ^ (lg - 1)"
    using uint_hash_less[OF assms(1,2)] by (intro int_div_less) simp_all
  moreover have "(2::int) * 2 ^ (lg - 1) = 2 ^ lg"
    using assms(3) by (cases lg) simp_all
  ultimately show ?thesis
    unfolding hashToIndex_nonneg[OF assms] CAPACITY_def
    by (simp add: pos_imp_zdiv_nonneg_iff)
qed

lemma hashToIndex_negative:
  assumes "legal_key k" "\<not> nonneg_key k"
  shows "hashToIndex lg (hash k) < 0"
proof -
  have c: "128 \<le> code k 0" using assms(2) by (simp add: nonneg_key_def code_def word_le_def)
  have u: "2 ^ 31 \<le> uint (hash k)"
    using c code_bounds[OF assms(1), of 1] code_bounds[OF assms(1), of 2]
      code_bounds[OF assms(1), of 0]
    by (simp add: uint_hash[OF assms(1)])
  have "sint (hash k) \<le> uint (hash k) - 2 ^ Suc 31"
    unfolding sint_uint using signed_take_bit_int_less_eq[of 31 "uint (hash k)"] u by simp
  moreover have "uint (hash k) < 2 ^ 32" using uint_lt2p[of "hash k"] by simp
  ultimately have "sint (hash k) < 0" by simp
  then show ?thesis
    by (simp add: hashToIndex_def sint_signed_drop_bit_eq drop_bit_eq_div
        pos_imp_zdiv_neg_iff)
qed

lemma legal_less_EMPTY: "legal_key k \<Longrightarrow> k < EMPTY_KEY"
  by (cases k) (auto simp: legal_key_def EMPTY_KEY_def word_le_def word_less_def)

section \<open>Preservation of the invariant by the two shifts\<close>

lemma kinv_legal: "kinv lg ks \<Longrightarrow> i < length ks \<Longrightarrow> ks ! i \<noteq> EMPTY_KEY \<Longrightarrow> legal_key (ks ! i)"
  and kinv_nonneg: "kinv lg ks \<Longrightarrow> i < length ks \<Longrightarrow> ks ! i \<noteq> EMPTY_KEY \<Longrightarrow> nonneg_key (ks ! i)"
  and kinv_bucket: "kinv lg ks \<Longrightarrow> i < length ks \<Longrightarrow> ks ! i \<noteq> EMPTY_KEY \<Longrightarrow>
        hashToIndex lg (hash (ks ! i)) \<le> int i"
  and kinv_run: "kinv lg ks \<Longrightarrow> i < length ks \<Longrightarrow> ks ! i \<noteq> EMPTY_KEY \<Longrightarrow>
        hashToIndex lg (hash (ks ! i)) \<le> int q \<Longrightarrow> q \<le> i \<Longrightarrow> ks ! q \<noteq> EMPTY_KEY"
  and kinv_order: "kinv lg ks \<Longrightarrow> i < j \<Longrightarrow> j < length ks \<Longrightarrow> ks ! i \<noteq> EMPTY_KEY \<Longrightarrow>
        ks ! j \<noteq> EMPTY_KEY \<Longrightarrow> ks ! i < ks ! j"
  unfolding kinv_def by (meson less_trans)+

text \<open>Everything before the insertion point is smaller, everything from it on is larger.\<close>

lemma kinv_before:
  assumes inv: "kinv lg ks" and lg: "1 \<le> lg" "lg \<le> 30"
    and k: "legal_key k" "nonneg_key k"
    and b: "hashToIndex lg (hash k) = int b"
    and scan: "\<forall>j. b \<le> j \<and> j < i0 \<longrightarrow> \<not> k \<le> ks ! j"
    and j: "j < i0" "i0 < length ks" "ks ! j \<noteq> EMPTY_KEY"
  shows "ks ! j < k"
proof (cases "b \<le> j")
  case True
  then show ?thesis using scan j(1) by auto
next
  case False
  have jn: "j < length ks" using j by simp
  have "hashToIndex lg (hash (ks ! j)) \<le> int j"
    by (rule kinv_bucket[OF inv jn j(3)])
  then have "hashToIndex lg (hash (ks ! j)) < hashToIndex lg (hash k)"
    using False b by simp
  then show ?thesis
    by (rule bucket_less_imp_key_less[OF kinv_legal[OF inv jn j(3)] kinv_nonneg[OF inv jn j(3)] k lg])
qed

lemma kinv_after:
  assumes inv: "kinv lg ks" and lg: "1 \<le> lg" "lg \<le> 30"
    and k: "legal_key k" "nonneg_key k"
    and b: "hashToIndex lg (hash k) = int b" "b \<le> i0"
    and at0: "k \<le> ks ! i0" "ks ! i0 \<noteq> k"
    and j: "i0 \<le> j" "j < length ks" "ks ! j \<noteq> EMPTY_KEY"
  shows "k < ks ! j"
proof (cases "j = i0")
  case True
  then show ?thesis using at0 by simp
next
  case False
  then have lt: "i0 < j" using j(1) by simp
  show ?thesis
  proof (cases "ks ! i0 = EMPTY_KEY")
    case True
    have "\<not> hashToIndex lg (hash (ks ! j)) \<le> int i0"
      using kinv_run[OF inv j(2,3), of i0] True lt by auto
    then have "hashToIndex lg (hash k) < hashToIndex lg (hash (ks ! j))"
      using b by simp
    then show ?thesis
      by (rule bucket_less_imp_key_less[OF k kinv_legal[OF inv j(2,3)] kinv_nonneg[OF inv j(2,3)] lg])
  next
    case False
    have "ks ! i0 < ks ! j"
      by (rule kinv_order[OF inv lt j(2) False j(3)])
    then show ?thesis using at0 by simp
  qed
qed

lemma kinv_insert:
  assumes inv: "kinv lg ks" and lg: "1 \<le> lg" "lg \<le> 30"
    and k: "legal_key k" "nonneg_key k"
    and b: "hashToIndex lg (hash k) = int b" "b \<le> i0"
    and ip: "i0 \<le> p" "p < length ks"
    and scan: "\<forall>j. b \<le> j \<and> j < i0 \<longrightarrow> \<not> k \<le> ks ! j"
    and at0: "k \<le> ks ! i0" "ks ! i0 \<noteq> k"
    and run: "\<forall>j. i0 \<le> j \<and> j < p \<longrightarrow> ks ! j \<noteq> EMPTY_KEY"
    and pe: "ks ! p = EMPTY_KEY \<or> Suc p = length ks"
  shows "kinv lg (shift_right ks k i0 p)"
proof -
  let ?ks' = "shift_right ks k i0 p"
  let ?E = EMPTY_KEY
  have kE: "k < ?E" "k \<noteq> ?E"
    using legal_less_EMPTY[OF k(1)] by auto
  have i0n: "i0 < length ks" using ip by simp
  have S: "\<And>j. j < length ks \<Longrightarrow>
      ?ks' ! j = (if j < i0 \<or> p < j then ks ! j else if j = i0 then k else ks ! (j - 1))"
    by (rule nth_shift_right)
  have before: "\<And>j. j < i0 \<Longrightarrow> ks ! j \<noteq> ?E \<Longrightarrow> ks ! j < k"
    by (rule kinv_before[OF inv lg k b(1) scan _ i0n])
  have after: "\<And>j. i0 \<le> j \<Longrightarrow> j < length ks \<Longrightarrow> ks ! j \<noteq> ?E \<Longrightarrow> k < ks ! j"
    by (rule kinv_after[OF inv lg k b at0])
  have scanE: "\<And>j. b \<le> j \<Longrightarrow> j < i0 \<Longrightarrow> ks ! j \<noteq> ?E"
    using scan kE(1) by (metis less_imp_le)
  note L = kinv_legal[OF inv] and N = kinv_nonneg[OF inv] and B = kinv_bucket[OF inv]
    and R = kinv_run[OF inv] and O = kinv_order[OF inv]
  show ?thesis
    unfolding kinv_def
  proof (intro allI impI)
    fix i assume i: "i < length ?ks'" and occ: "?ks' ! i \<noteq> ?E"
    have iN: "i < length ks" using i by simp
    consider (A) "i < i0" | (B) "i = i0" | (C) "i0 < i" "i \<le> p" | (D) "p < i"
      by linarith
    then show "legal_key (?ks' ! i) \<and> nonneg_key (?ks' ! i) \<and>
        hashToIndex lg (hash (?ks' ! i)) \<le> int i \<and>
        (\<forall>q. hashToIndex lg (hash (?ks' ! i)) \<le> int q \<and> q \<le> i \<longrightarrow> ?ks' ! q \<noteq> ?E) \<and>
        (\<forall>j. i < j \<and> j < length ?ks' \<and> ?ks' ! j \<noteq> ?E \<longrightarrow> ?ks' ! i < ?ks' ! j)"
    proof cases
      case A
      have eq: "?ks' ! i = ks ! i" using S[OF iN] A by simp
      have o: "ks ! i \<noteq> ?E" using occ eq by simp
      have 1: "\<forall>q. hashToIndex lg (hash (ks ! i)) \<le> int q \<and> q \<le> i \<longrightarrow> ?ks' ! q \<noteq> ?E"
      proof (intro allI impI)
        fix q assume q: "hashToIndex lg (hash (ks ! i)) \<le> int q \<and> q \<le> i"
        then have "?ks' ! q = ks ! q" using S[of q] A iN by simp
        then show "?ks' ! q \<noteq> ?E" using R[OF iN o, of q] q by simp
      qed
      have 2: "\<forall>j. i < j \<and> j < length ?ks' \<and> ?ks' ! j \<noteq> ?E \<longrightarrow> ks ! i < ?ks' ! j"
      proof (intro allI impI)
        fix j assume j: "i < j \<and> j < length ?ks' \<and> ?ks' ! j \<noteq> ?E"
        then have jn: "j < length ks" by simp
        consider "j < i0 \<or> p < j" | "j = i0" | "i0 < j" "j \<le> p" by linarith
        then show "ks ! i < ?ks' ! j"
        proof cases
          case 1
          then have "?ks' ! j = ks ! j" using S[OF jn] by simp
          then show ?thesis using O[of i j] j jn o by simp
        next
          case 2
          then have "?ks' ! j = k" using S[OF jn] ip by simp
          then show ?thesis using before[OF A o] by simp
        next
          case 3
          then have e: "?ks' ! j = ks ! (j - 1)" using S[OF jn] by simp
          have "i < j - 1" "j - 1 < length ks" using 3 A jn by simp_all
          then show ?thesis using O[of i "j - 1"] j o e by simp
        qed
      qed
      show ?thesis
        using L[OF iN o] N[OF iN o] B[OF iN o] 1 2 unfolding eq by simp
    next
      case B
      have eq: "?ks' ! i = k" using S[OF iN] B ip by simp
      have 1: "\<forall>q. hashToIndex lg (hash k) \<le> int q \<and> q \<le> i \<longrightarrow> ?ks' ! q \<noteq> ?E"
      proof (intro allI impI)
        fix q assume q: "hashToIndex lg (hash k) \<le> int q \<and> q \<le> i"
        then have bq: "b \<le> q" using b by simp
        show "?ks' ! q \<noteq> ?E"
        proof (cases "q = i0")
          case True
          then show ?thesis using S[of q] i0n ip kE by simp
        next
          case False
          then have lt: "q < i0" using q B by simp
          then have "?ks' ! q = ks ! q" using S[of q] i0n by simp
          then show ?thesis using scanE[OF bq lt] by simp
        qed
      qed
      have 2: "\<forall>j. i < j \<and> j < length ?ks' \<and> ?ks' ! j \<noteq> ?E \<longrightarrow> k < ?ks' ! j"
      proof (intro allI impI)
        fix j assume j: "i < j \<and> j < length ?ks' \<and> ?ks' ! j \<noteq> ?E"
        then have jn: "j < length ks" by simp
        show "k < ?ks' ! j"
        proof (cases "j \<le> p")
          case True
          then have e: "?ks' ! j = ks ! (j - 1)" using S[OF jn] j B by simp
          have "i0 \<le> j - 1" "j - 1 < length ks" using j B jn by auto
          then show ?thesis using after[of "j - 1"] e j by simp
        next
          case False
          then have e: "?ks' ! j = ks ! j" using S[OF jn] by simp
          have "i0 \<le> j" using j B by simp
          then show ?thesis using after[of j] e j jn by simp
        qed
      qed
      show ?thesis
        using k b B 1 2 unfolding eq by simp
    next
      case C
      have eq: "?ks' ! i = ks ! (i - 1)" using S[OF iN] C by simp
      have i1: "i - 1 < length ks" "i0 \<le> i - 1" "i - 1 < p" using C iN by simp_all
      have o: "ks ! (i - 1) \<noteq> ?E" using run i1 by simp
      have 1: "\<forall>q. hashToIndex lg (hash (ks ! (i - 1))) \<le> int q \<and> q \<le> i \<longrightarrow> ?ks' ! q \<noteq> ?E"
      proof (intro allI impI)
        fix q assume q: "hashToIndex lg (hash (ks ! (i - 1))) \<le> int q \<and> q \<le> i"
        then have qn: "q < length ks" using iN by simp
        consider "q < i0" | "q = i0" | "i0 < q" by linarith
        then show "?ks' ! q \<noteq> ?E"
        proof cases
          case 1
          then have "?ks' ! q = ks ! q" using S[OF qn] by simp
          moreover have "q \<le> i - 1" using 1 C by simp
          ultimately show ?thesis using R[OF i1(1) o, of q] q by simp
        next
          case 2
          then show ?thesis using S[OF qn] ip kE by simp
        next
          case 3
          then have "?ks' ! q = ks ! (q - 1)" using S[OF qn] q C by simp
          moreover have "i0 \<le> q - 1 \<and> q - 1 < p" using 3 q C by auto
          ultimately show ?thesis using run by simp
        qed
      qed
      have 2: "\<forall>j. i < j \<and> j < length ?ks' \<and> ?ks' ! j \<noteq> ?E \<longrightarrow> ks ! (i - 1) < ?ks' ! j"
      proof (intro allI impI)
        fix j assume j: "i < j \<and> j < length ?ks' \<and> ?ks' ! j \<noteq> ?E"
        then have jn: "j < length ks" by simp
        show "ks ! (i - 1) < ?ks' ! j"
        proof (cases "j \<le> p")
          case True
          then have e: "?ks' ! j = ks ! (j - 1)" using S[OF jn] j C by simp
          have "i - 1 < j - 1" "j - 1 < length ks" using j C jn by auto
          then show ?thesis using O[of "i - 1" "j - 1"] e j o by simp
        next
          case False
          then have e: "?ks' ! j = ks ! j" using S[OF jn] by simp
          have "i - 1 < j" using j by auto
          then show ?thesis using O[of "i - 1" j] e j jn o by simp
        qed
      qed
      have 3: "hashToIndex lg (hash (ks ! (i - 1))) \<le> int i"
        using B[OF i1(1) o] by linarith
      show ?thesis
        using L[OF i1(1) o] N[OF i1(1) o] 3 1 2 unfolding eq by simp
    next
      case D
      have eq: "?ks' ! i = ks ! i" using S[OF iN] D by simp
      have o: "ks ! i \<noteq> ?E" using occ eq by simp
      have pE: "ks ! p = ?E"
        using pe D iN by auto
      have far: "\<not> hashToIndex lg (hash (ks ! i)) \<le> int p"
        using R[OF iN o, of p] pE D by auto
      have 1: "\<forall>q. hashToIndex lg (hash (ks ! i)) \<le> int q \<and> q \<le> i \<longrightarrow> ?ks' ! q \<noteq> ?E"
      proof (intro allI impI)
        fix q assume q: "hashToIndex lg (hash (ks ! i)) \<le> int q \<and> q \<le> i"
        then have "p < q" using far by linarith
        then have "?ks' ! q = ks ! q" using S[of q] q iN by simp
        then show "?ks' ! q \<noteq> ?E" using R[OF iN o, of q] q by simp
      qed
      have 2: "\<forall>j. i < j \<and> j < length ?ks' \<and> ?ks' ! j \<noteq> ?E \<longrightarrow> ks ! i < ?ks' ! j"
      proof (intro allI impI)
        fix j assume j: "i < j \<and> j < length ?ks' \<and> ?ks' ! j \<noteq> ?E"
        then have jn: "j < length ks" by simp
        have "?ks' ! j = ks ! j" using S[OF jn] j D by simp
        then show "ks ! i < ?ks' ! j" using O[of i j] j jn o by simp
      qed
      show ?thesis
        using L[OF iN o] N[OF iN o] B[OF iN o] 1 2 unfolding eq by simp
    qed
  qed
qed


lemma kinv_delete:
  assumes inv: "kinv lg ks" and lg: "1 \<le> lg" "lg \<le> 30"
    and dg: "d \<le> g" "Suc g < length ks"
    and cont: "\<forall>x. d \<le> x \<and> x < g \<longrightarrow>
        ks ! Suc x \<noteq> EMPTY_KEY \<and> hashToIndex lg (hash (ks ! Suc x)) \<le> int x"
    and stop: "int g < hashToIndex lg (hash (ks ! Suc g)) \<or> ks ! Suc g = EMPTY_KEY"
  shows "kinv lg ((shift_left ks d g)[g := EMPTY_KEY])"
proof -
  let ?ks' = "(shift_left ks d g)[g := EMPTY_KEY]"
  let ?E = EMPTY_KEY
  have S: "\<And>j. j < length ks \<Longrightarrow>
      ?ks' ! j = (if j = g then ?E else if d \<le> j \<and> j < g then ks ! Suc j else ks ! j)"
    by (auto simp: nth_list_update nth_shift_left)
  note L = kinv_legal[OF inv] and N = kinv_nonneg[OF inv] and B = kinv_bucket[OF inv]
    and R = kinv_run[OF inv] and O = kinv_order[OF inv]
  show ?thesis
    unfolding kinv_def
  proof (intro allI impI)
    fix i assume i: "i < length ?ks'" and occ: "?ks' ! i \<noteq> ?E"
    have iN: "i < length ks" using i by simp
    have ig: "i \<noteq> g" using occ S[OF iN] by auto
    consider (A) "i < d" | (C) "d \<le> i" "i < g" | (D) "g < i"
      using ig by linarith
    then show "legal_key (?ks' ! i) \<and> nonneg_key (?ks' ! i) \<and>
        hashToIndex lg (hash (?ks' ! i)) \<le> int i \<and>
        (\<forall>q. hashToIndex lg (hash (?ks' ! i)) \<le> int q \<and> q \<le> i \<longrightarrow> ?ks' ! q \<noteq> ?E) \<and>
        (\<forall>j. i < j \<and> j < length ?ks' \<and> ?ks' ! j \<noteq> ?E \<longrightarrow> ?ks' ! i < ?ks' ! j)"
    proof cases
      case A
      have eq: "?ks' ! i = ks ! i" using S[OF iN] A dg by simp
      have o: "ks ! i \<noteq> ?E" using occ eq by simp
      have 1: "\<forall>q. hashToIndex lg (hash (ks ! i)) \<le> int q \<and> q \<le> i \<longrightarrow> ?ks' ! q \<noteq> ?E"
      proof (intro allI impI)
        fix q assume q: "hashToIndex lg (hash (ks ! i)) \<le> int q \<and> q \<le> i"
        then have "?ks' ! q = ks ! q" using S[of q] A iN dg by simp
        then show "?ks' ! q \<noteq> ?E" using R[OF iN o, of q] q by simp
      qed
      have 2: "\<forall>j. i < j \<and> j < length ?ks' \<and> ?ks' ! j \<noteq> ?E \<longrightarrow> ks ! i < ?ks' ! j"
      proof (intro allI impI)
        fix j assume j: "i < j \<and> j < length ?ks' \<and> ?ks' ! j \<noteq> ?E"
        then have jn: "j < length ks" by simp
        have jg: "j \<noteq> g" using j S[OF jn] by auto
        show "ks ! i < ?ks' ! j"
        proof (cases "d \<le> j \<and> j < g")
          case True
          then have e: "?ks' ! j = ks ! Suc j" using S[OF jn] by simp
          have "i < Suc j" "Suc j < length ks" using True j dg by auto
          then show ?thesis using O[of i "Suc j"] j o e by simp
        next
          case False
          then have "?ks' ! j = ks ! j" using S[OF jn] jg by auto
          then show ?thesis using O[of i j] j jn o by simp
        qed
      qed
      show ?thesis
        using L[OF iN o] N[OF iN o] B[OF iN o] 1 2 unfolding eq by simp
    next
      case C
      have eq: "?ks' ! i = ks ! Suc i" using S[OF iN] C by simp
      have i1: "Suc i < length ks" using C dg by simp
      have o: "ks ! Suc i \<noteq> ?E" and bk: "hashToIndex lg (hash (ks ! Suc i)) \<le> int i"
        using cont C by auto
      have 1: "\<forall>q. hashToIndex lg (hash (ks ! Suc i)) \<le> int q \<and> q \<le> i \<longrightarrow> ?ks' ! q \<noteq> ?E"
      proof (intro allI impI)
        fix q assume q: "hashToIndex lg (hash (ks ! Suc i)) \<le> int q \<and> q \<le> i"
        then have qn: "q < length ks" using iN by simp
        show "?ks' ! q \<noteq> ?E"
        proof (cases "d \<le> q")
          case True
          then have "?ks' ! q = ks ! Suc q" using S[OF qn] q C by simp
          then show ?thesis using cont True q C by simp
        next
          case False
          then have "?ks' ! q = ks ! q" using S[OF qn] dg by simp
          then show ?thesis using R[OF i1 o, of q] q by simp
        qed
      qed
      have 2: "\<forall>j. i < j \<and> j < length ?ks' \<and> ?ks' ! j \<noteq> ?E \<longrightarrow> ks ! Suc i < ?ks' ! j"
      proof (intro allI impI)
        fix j assume j: "i < j \<and> j < length ?ks' \<and> ?ks' ! j \<noteq> ?E"
        then have jn: "j < length ks" by simp
        have jg: "j \<noteq> g" using j S[OF jn] by auto
        show "ks ! Suc i < ?ks' ! j"
        proof (cases "j < g")
          case True
          then have e: "?ks' ! j = ks ! Suc j" using S[OF jn] j C by simp
          have "Suc i < Suc j" "Suc j < length ks" using True j dg by auto
          then show ?thesis using O[of "Suc i" "Suc j"] j o e by simp
        next
          case False
          then have e: "?ks' ! j = ks ! j" using S[OF jn] jg by simp
          have "Suc i < j" using False jg C by simp
          then show ?thesis using O[of "Suc i" j] j jn o e by simp
        qed
      qed
      show ?thesis
        using L[OF i1 o] N[OF i1 o] bk 1 2 unfolding eq by simp
    next
      case D
      have eq: "?ks' ! i = ks ! i" using S[OF iN] D by simp
      have o: "ks ! i \<noteq> ?E" using occ eq by simp
      have far: "int g < hashToIndex lg (hash (ks ! i))"
      proof (cases "i = Suc g")
        case True
        then show ?thesis using stop o by simp
      next
        case False
        then have lt: "Suc g < i" using D by simp
        show ?thesis
        proof (cases "ks ! Suc g = ?E")
          case True
          then have "\<not> hashToIndex lg (hash (ks ! i)) \<le> int (Suc g)"
            using R[OF iN o, of "Suc g"] lt by auto
          then show ?thesis by simp
        next
          case False
          have "ks ! Suc g < ks ! i"
            by (rule O[OF lt iN False o])
          then have "hashToIndex lg (hash (ks ! Suc g)) \<le> hashToIndex lg (hash (ks ! i))"
            by (intro hashToIndex_mono[OF L[OF dg(2) False] N[OF dg(2) False] L[OF iN o] N[OF iN o] lg])
               simp
          then show ?thesis using stop False by simp
        qed
      qed
      have 1: "\<forall>q. hashToIndex lg (hash (ks ! i)) \<le> int q \<and> q \<le> i \<longrightarrow> ?ks' ! q \<noteq> ?E"
      proof (intro allI impI)
        fix q assume q: "hashToIndex lg (hash (ks ! i)) \<le> int q \<and> q \<le> i"
        then have "g < q" using far by linarith
        then have "?ks' ! q = ks ! q" using S[of q] q iN by simp
        then show "?ks' ! q \<noteq> ?E" using R[OF iN o, of q] q by simp
      qed
      have 2: "\<forall>j. i < j \<and> j < length ?ks' \<and> ?ks' ! j \<noteq> ?E \<longrightarrow> ks ! i < ?ks' ! j"
      proof (intro allI impI)
        fix j assume j: "i < j \<and> j < length ?ks' \<and> ?ks' ! j \<noteq> ?E"
        then have jn: "j < length ks" by simp
        have "?ks' ! j = ks ! j" using S[OF jn] j D by simp
        then show "ks ! i < ?ks' ! j" using O[of i j] j jn o by simp
      qed
      show ?thesis
        using L[OF iN o] N[OF iN o] B[OF iN o] 1 2 unfolding eq by simp
    qed
  qed
qed

section \<open>The operations in closed form\<close>

lemma keys_nth: "j < length (entries t) \<Longrightarrow> keys t ! j = key (entries t ! j)"
  by (simp add: keys_def)

lemma length_keys [simp]: "length (keys t) = length (entries t)"
  by (simp add: keys_def)

lemma first_ge_Some:
  "first_ge es k b = Some i0 \<longleftrightarrow>
     b \<le> i0 \<and> i0 < length es \<and> k \<le> key (es ! i0) \<and> (\<forall>x. b \<le> x \<and> x < i0 \<longrightarrow> \<not> k \<le> key (es ! x))"
  by (simp add: first_ge_def find_upt_Some_iff)

lemma first_empty_Some:
  "first_empty es i = Some p \<longleftrightarrow>
     i \<le> p \<and> p < length es \<and> key (es ! p) = EMPTY_KEY \<and>
     (\<forall>x. i \<le> x \<and> x < p \<longrightarrow> key (es ! x) \<noteq> EMPTY_KEY)"
  by (simp add: first_empty_def find_upt_Some_iff)

lemma first_stop_Some:
  "first_stop lg es d = Some g \<longleftrightarrow>
     d \<le> g \<and> Suc g < length es \<and>
     (int g < hashToIndex lg (hash (key (es ! Suc g))) \<or> key (es ! Suc g) = EMPTY_KEY) \<and>
     (\<forall>x. d \<le> x \<and> x < g \<longrightarrow>
        \<not> (int x < hashToIndex lg (hash (key (es ! Suc x))) \<or> key (es ! Suc x) = EMPTY_KEY))"
  by (auto simp: first_stop_def find_upt_Some_iff)

subsection \<open>getOrPut\<close>

lemma getOrPut_loop_found:
  assumes "i0 < length (entries t)" "key (entries t ! i0) = k"
  shows "getOrPut_loop k t it (int i0) ins = (Inr \<lparr>exists = True, index = int i0\<rparr>, t)"
  using assms by (subst getOrPut_loop.simps) (simp add: at_nat)

lemma chain_hyp:
  assumes inv: "kinv lg (keys t)" and lg: "1 \<le> lg" "lg \<le> 30"
    and k: "legal_key k" "nonneg_key k"
    and b: "hashToIndex lg (hash k) = int b"
    and ge: "first_ge (entries t) k b = Some i0"
    and ne: "key (entries t ! i0) \<noteq> k"
    and j: "i0 \<le> j" "j < length (entries t)"
  shows "k \<le> key (entries t ! j) \<and> key (entries t ! j) \<noteq> k"
proof (cases "key (entries t ! j) = EMPTY_KEY")
  case True
  then show ?thesis using legal_less_EMPTY[OF k(1)] by auto
next
  case False
  from ge have g: "b \<le> i0" "i0 < length (entries t)" "k \<le> key (entries t ! i0)"
    by (auto simp: first_ge_Some)
  have "k < keys t ! j"
    by (rule kinv_after[OF inv lg k b g(1), of j])
       (use g ne j False in \<open>simp_all add: keys_nth\<close>)
  then have "k < key (entries t ! j)" using j by (simp add: keys_nth)
  then show ?thesis by auto
qed

lemma getOrPut_new:
  assumes inv: "kinv lg (keys t)" and lg: "1 \<le> lg" "lg \<le> 30"
    and k: "legal_key k" "nonneg_key k"
    and len: "len t < CAPACITY lg"
    and b: "hashToIndex lg (hash k) = int b"
    and ge: "first_ge (entries t) k b = Some i0"
    and ne: "key (entries t ! i0) \<noteq> k"
    and fe: "first_empty (entries t) i0 = Some p"
  shows "getOrPut lg t k =
     (Inr \<lparr>exists = False, index = int i0\<rparr>,
      t\<lparr>entries := shift_right (entries t) \<lparr>key = k, val = None\<rparr> i0 p, len := len t + 1\<rparr>)"
proof -
  from fe have pn: "p < length (entries t)" by (simp add: first_empty_Some)
  have hyp: "\<forall>j. i0 \<le> j \<and> j \<le> p \<longrightarrow> k \<le> key (entries t ! j) \<and> key (entries t ! j) \<noteq> k"
    using chain_hyp[OF inv lg k b ge ne] pn by auto
  have "getOrPut lg t k = getOrPut_loop k t \<lparr>key = k, val = None\<rparr> (int b) None"
    using len by (simp add: getOrPut_def b)
  also have "\<dots> = getOrPut_loop k t \<lparr>key = k, val = None\<rparr> (int i0) None"
    by (subst getOrPut_loop_first_ge) (simp add: ge)
  also have "\<dots> = (Inr \<lparr>exists = False, index = int i0\<rparr>,
      t\<lparr>entries := shift_right (entries t) \<lparr>key = k, val = None\<rparr> i0 p, len := len t + 1\<rparr>)"
    by (subst getOrPut_loop_chain[OF fe hyp]) simp
  finally show ?thesis .
qed

lemma getOrPut_found:
  assumes len: "len t < CAPACITY lg"
    and b: "hashToIndex lg (hash k) = int b"
    and ge: "first_ge (entries t) k b = Some i0"
    and eq: "key (entries t ! i0) = k"
  shows "getOrPut lg t k = (Inr \<lparr>exists = True, index = int i0\<rparr>, t)"
proof -
  from ge have i0n: "i0 < length (entries t)" by (simp add: first_ge_Some)
  have "getOrPut lg t k = getOrPut_loop k t \<lparr>key = k, val = None\<rparr> (int b) None"
    using len by (simp add: getOrPut_def b)
  also have "\<dots> = getOrPut_loop k t \<lparr>key = k, val = None\<rparr> (int i0) None"
    by (subst getOrPut_loop_first_ge) (simp add: ge)
  finally show ?thesis by (simp add: getOrPut_loop_found[OF i0n eq])
qed

lemma getOrPut_overrun:
  assumes inv: "kinv lg (keys t)" and lg: "1 \<le> lg" "lg \<le> 30"
    and k: "legal_key k" "nonneg_key k"
    and len: "len t < CAPACITY lg"
    and b: "hashToIndex lg (hash k) = int b"
    and ge: "first_ge (entries t) k b = Some i0"
    and ne: "key (entries t ! i0) \<noteq> k"
    and fe: "first_empty (entries t) i0 = None"
  shows "fst (getOrPut lg t k) = Inl TypeError"
proof -
  have hyp: "\<forall>j. i0 \<le> j \<and> j < length (entries t) \<longrightarrow>
      k \<le> key (entries t ! j) \<and> key (entries t ! j) \<noteq> k"
    using chain_hyp[OF inv lg k b ge ne] by auto
  have "getOrPut lg t k = getOrPut_loop k t \<lparr>key = k, val = None\<rparr> (int b) None"
    using len by (simp add: getOrPut_def b)
  also have "\<dots> = getOrPut_loop k t \<lparr>key = k, val = None\<rparr> (int i0) None"
    by (subst getOrPut_loop_first_ge) (simp add: ge)
  finally show ?thesis by (simp add: getOrPut_loop_chain_None[OF fe hyp])
qed

lemma getOrPut_no_slot:
  assumes len: "len t < CAPACITY lg"
    and b: "hashToIndex lg (hash k) = int b"
    and ge: "first_ge (entries t) k b = None"
  shows "getOrPut lg t k = (Inl TypeError, t)"
proof -
  have "getOrPut lg t k = getOrPut_loop k t \<lparr>key = k, val = None\<rparr> (int b) None"
    using len by (simp add: getOrPut_def b)
  also have "\<dots> = (Inl TypeError, t)"
    by (subst getOrPut_loop_first_ge) (simp add: ge)
  finally show ?thesis .
qed

lemma getOrPut_negative:
  assumes "hashToIndex lg (hash k) < 0"
  shows "fst (getOrPut lg t k) \<noteq> Inr r" "snd (getOrPut lg t k) = t"
  using assms by (auto simp: getOrPut_def getOrPut_loop.simps[of k t _ "hashToIndex lg (hash k)"] at_def)

text \<open>What a call of \<^verbatim>\<open>getOrPut\<close> that returns has done.\<close>

lemma getOrPut_cases:
  assumes inv: "kinv lg (keys t)" and lg: "1 \<le> lg" "lg \<le> 30"
    and k: "legal_key k"
    and ok: "getOrPut lg t k = (Inr r, t')"
  obtains (found) b i0 where "nonneg_key k" "hashToIndex lg (hash k) = int b"
      "first_ge (entries t) k b = Some i0" "key (entries t ! i0) = k"
      "r = \<lparr>exists = True, index = int i0\<rparr>" "t' = t"
  | (new) b i0 p where "nonneg_key k" "hashToIndex lg (hash k) = int b"
      "first_ge (entries t) k b = Some i0" "key (entries t ! i0) \<noteq> k"
      "first_empty (entries t) i0 = Some p"
      "r = \<lparr>exists = False, index = int i0\<rparr>"
      "t' = t\<lparr>entries := shift_right (entries t) \<lparr>key = k, val = None\<rparr> i0 p, len := len t + 1\<rparr>"
proof -
  have len: "len t < CAPACITY lg"
    using ok by (auto simp: getOrPut_def split: if_splits)
  have nn: "\<not> hashToIndex lg (hash k) < 0"
    using getOrPut_negative(1)[of lg k t r] ok by auto
  then have nk: "nonneg_key k"
    using hashToIndex_negative[OF k] by blast
  obtain b where b: "hashToIndex lg (hash k) = int b"
    using nn by (metis nat_0_le not_less)
  show thesis
  proof (cases "first_ge (entries t) k b")
    case None
    then show ?thesis using getOrPut_no_slot[OF len b None] ok by simp
  next
    case (Some i0)
    show ?thesis
    proof (cases "key (entries t ! i0) = k")
      case True
      then show ?thesis
        using getOrPut_found[OF len b Some True] ok found[OF nk b Some True] by simp
    next
      case False
      show ?thesis
      proof (cases "first_empty (entries t) i0")
        case None
        then show ?thesis
          using getOrPut_overrun[OF inv lg k nk len b Some False None] ok by simp
      next
        case (Some p)
        then show ?thesis
          using getOrPut_new[OF inv lg k nk len b \<open>first_ge (entries t) k b = Some i0\<close> False Some]
            ok new[OF nk b \<open>first_ge (entries t) k b = Some i0\<close> False Some] by simp
      qed
    qed
  qed
qed

subsection \<open>del\<close>

lemma del_not_found:
  assumes b: "hashToIndex lg (hash k) = int b"
    and ge: "first_ge (entries t) k b = Some d" and ne: "key (entries t ! d) \<noteq> k"
  shows "del lg t k = (Inr Null, t)"
  by (simp add: del_def b del_find_first_ge ge ne)

lemma del_no_slot:
  assumes b: "hashToIndex lg (hash k) = int b"
    and ge: "first_ge (entries t) k b = None"
  shows "del lg t k = (Inl TypeError, t)"
  by (simp add: del_def b del_find_first_ge ge)

lemma del_negative:
  assumes "hashToIndex lg (hash k) < 0"
  shows "del lg t k = (Inl TypeError, t)"
  using assms by (simp add: del_def del_find.simps[of _ k "hashToIndex lg (hash k)"] at_def)

lemma del_found:
  assumes b: "hashToIndex lg (hash k) = int b"
    and ge: "first_ge (entries t) k b = Some d" and eq: "key (entries t ! d) = k"
    and fs: "first_stop lg (entries t) d = Some g"
  shows "del lg t k =
     (Inr (Value (val (entries t ! d))),
      t\<lparr>entries := (shift_left (entries t) d g)[g := \<lparr>key = EMPTY_KEY, val = None\<rparr>],
        len := len t - 1\<rparr>)"
  by (simp add: del_def b del_find_first_ge ge eq del_shift_stop[OF fs])

lemma del_overrun:
  assumes b: "hashToIndex lg (hash k) = int b"
    and ge: "first_ge (entries t) k b = Some d" and eq: "key (entries t ! d) = k"
    and fs: "first_stop lg (entries t) d = None"
  shows "fst (del lg t k) = Inl TypeError"
  using del_shift_None[OF fs]
  by (cases "del_shift lg t (int d)") (simp add: del_def b del_find_first_ge ge eq)

lemma del_cases:
  assumes ok: "del lg t k = (Inr r, t')"
  obtains (absent) b d where "hashToIndex lg (hash k) = int b"
      "first_ge (entries t) k b = Some d" "key (entries t ! d) \<noteq> k" "r = Null" "t' = t"
  | (removed) b d g where "hashToIndex lg (hash k) = int b"
      "first_ge (entries t) k b = Some d" "key (entries t ! d) = k"
      "first_stop lg (entries t) d = Some g"
      "r = Value (val (entries t ! d))"
      "t' = t\<lparr>entries := (shift_left (entries t) d g)[g := \<lparr>key = EMPTY_KEY, val = None\<rparr>],
             len := len t - 1\<rparr>"
proof -
  have nn: "\<not> hashToIndex lg (hash k) < 0"
    using del_negative[of lg k t] ok by auto
  obtain b where b: "hashToIndex lg (hash k) = int b"
    using nn by (metis nat_0_le not_less)
  show thesis
  proof (cases "first_ge (entries t) k b")
    case None
    then show ?thesis using del_no_slot[OF b None] ok by simp
  next
    case (Some d)
    note ge = this
    show ?thesis
    proof (cases "key (entries t ! d) = k")
      case False
      then show ?thesis
        using del_not_found[OF b ge False] ok absent[OF b ge False] by simp
    next
      case True
      show ?thesis
      proof (cases "first_stop lg (entries t) d")
        case None
        then show ?thesis using del_overrun[OF b ge True None] ok by simp
      next
        case (Some g)
        then show ?thesis
          using del_found[OF b ge True Some] ok removed[OF b ge True Some] by simp
      qed
    qed
  qed
qed

section \<open>The invariant holds in every table that is reached\<close>

lemma kinv_init: "kinv lg (keys (init lg))"
  by (simp add: kinv_def keys_def init_def)

lemma getOrPut_kinv:
  assumes inv: "kinv lg (keys t)" and lg: "1 \<le> lg" "lg \<le> 30"
    and k: "legal_key k"
    and ok: "getOrPut lg t k = (Inr r, t')"
  shows "kinv lg (keys t') \<and> 0 \<le> index r \<and> nat (index r) < length (entries t') \<and>
         key (entries t' ! nat (index r)) = k"
  using inv lg k ok
proof (cases rule: getOrPut_cases)
  case (found b i0)
  then show ?thesis using inv by (auto simp: first_ge_Some)
next
  case (new b i0 p)
  from new(3) have ge: "b \<le> i0" "i0 < length (entries t)" "k \<le> key (entries t ! i0)"
    "\<forall>x. b \<le> x \<and> x < i0 \<longrightarrow> \<not> k \<le> key (entries t ! x)"
    by (auto simp: first_ge_Some)
  from new(5) have fe: "i0 \<le> p" "p < length (entries t)" "key (entries t ! p) = EMPTY_KEY"
    "\<forall>x. i0 \<le> x \<and> x < p \<longrightarrow> key (entries t ! x) \<noteq> EMPTY_KEY"
    by (auto simp: first_empty_Some)
  have ks: "keys t' = shift_right (keys t) k i0 p"
    by (simp add: new(7) keys_def map_shift_right)
  have "kinv lg (shift_right (keys t) k i0 p)"
    by (rule kinv_insert[OF inv lg k new(1) new(2) ge(1) fe(1)])
       (use ge fe new(4) in \<open>auto simp: keys_nth\<close>)
  moreover have "key (entries t' ! i0) = k"
    using ge(2) fe(1) by (simp add: new(7) nth_shift_right)
  ultimately show ?thesis using ks ge(2) by (simp add: new(6,7))
qed

lemma put_kinv:
  assumes inv: "kinv lg (keys t)" and lg: "1 \<le> lg" "lg \<le> 30"
    and k: "legal_key k"
    and ok: "put lg t k v = (Inr u, t')"
  shows "kinv lg (keys t')"
proof -
  obtain r t1 where g: "getOrPut lg t k = (Inr r, t1)"
    and t': "t' = t1\<lparr>entries := (entries t1)
                 [nat (index r) := (entries t1 ! nat (index r))\<lparr>key := k, val := Some v\<rparr>]\<rparr>"
    using ok by (auto simp: put_def split: prod.splits sum.splits)
  note G = getOrPut_kinv[OF inv lg k g]
  have "keys t' = (keys t1)[nat (index r) := k]"
    by (simp add: t' keys_def map_update)
  also have "\<dots> = keys t1"
    using G by (intro list_update_same_conv[THEN iffD2]) (simp_all add: keys_nth)
  finally show ?thesis using G by simp
qed

lemma del_kinv:
  assumes inv: "kinv lg (keys t)" and lg: "1 \<le> lg" "lg \<le> 30"
    and ok: "del lg t k = (Inr r, t')"
  shows "kinv lg (keys t')"
  using ok
proof (cases rule: del_cases)
  case (absent b d)
  then show ?thesis using inv by simp
next
  case (removed b d g)
  from removed(4) have fs: "d \<le> g" "Suc g < length (entries t)"
    "int g < hashToIndex lg (hash (key (entries t ! Suc g))) \<or> key (entries t ! Suc g) = EMPTY_KEY"
    "\<forall>x. d \<le> x \<and> x < g \<longrightarrow>
        \<not> (int x < hashToIndex lg (hash (key (entries t ! Suc x))) \<or> key (entries t ! Suc x) = EMPTY_KEY)"
    by (auto simp: first_stop_Some)
  have ks: "keys t' = (shift_left (keys t) d g)[g := EMPTY_KEY]"
    using fs(2) by (simp add: removed(6) keys_def map_update map_shift_left)
  have "kinv lg ((shift_left (keys t) d g)[g := EMPTY_KEY])"
    by (rule kinv_delete[OF inv lg fs(1)])
       (use fs in \<open>auto simp: keys_nth\<close>)
  then show ?thesis using ks by simp
qed

lemma apply_op_kinv:
  assumes "kinv lg (keys t)" "1 \<le> lg" "lg \<le> 30" "legal_key (op_key x)"
    and "apply_op lg t x = Some t'"
  shows "kinv lg (keys t')"
proof (cases x)
  case (Put k v)
  then show ?thesis
    using assms put_kinv[of lg t k v _ t']
    by (auto split: prod.splits sum.splits)
next
  case (GetOrPut k)
  then show ?thesis
    using assms getOrPut_kinv[of lg t k _ t']
    by (auto split: prod.splits sum.splits)
next
  case (Del k)
  then show ?thesis
    using assms del_kinv[of lg t k _ t']
    by (auto split: prod.splits sum.splits)
qed

lemma run_kinv:
  assumes "1 \<le> lg" "lg \<le> 30"
  shows "kinv lg (keys t) \<Longrightarrow> list_all (\<lambda>x. legal_key (op_key x)) ops \<Longrightarrow>
         run lg t ops = Some t' \<Longrightarrow> kinv lg (keys t')"
proof (induction ops arbitrary: t)
  case Nil
  then show ?case by simp
next
  case (Cons x xs)
  from Cons.prems(3) obtain t1 where a: "apply_op lg t x = Some t1" and r: "run lg t1 xs = Some t'"
    by (auto split: option.splits)
  have "kinv lg (keys t1)"
    using apply_op_kinv[OF Cons.prems(1) assms _ a] Cons.prems(2) by simp
  then show ?case using Cons.IH[OF _ _ r] Cons.prems(2) by simp
qed

lemma reaches_kinv:
  "1 \<le> lg \<Longrightarrow> lg \<le> 30 \<Longrightarrow> reaches lg ops t \<Longrightarrow> kinv lg (keys t)"
  unfolding reaches_def using run_kinv[OF _ _ kinv_init] by blast

section \<open>Displacement\<close>

lemma reaches_scenario: "reaches 3 scenario scenario_table"
  by code_simp

lemma sorted_wrt_map_filter:
  assumes "\<forall>i j. i < j \<and> j < length xs \<and> Q (xs ! i) \<and> Q (xs ! j) \<longrightarrow> P (f (xs ! i)) (f (xs ! j))"
  shows "sorted_wrt P (map f (filter Q xs))"
  using assms
proof (induction xs)
  case Nil
  then show ?case by simp
next
  case (Cons x xs)
  have tl: "\<forall>i j. i < j \<and> j < length xs \<and> Q (xs ! i) \<and> Q (xs ! j) \<longrightarrow> P (f (xs ! i)) (f (xs ! j))"
  proof (intro allI impI)
    fix i j assume "i < j \<and> j < length xs \<and> Q (xs ! i) \<and> Q (xs ! j)"
    then show "P (f (xs ! i)) (f (xs ! j))"
      using Cons.prems[rule_format, of "Suc i" "Suc j"] by simp
  qed
  have hd: "Q x \<Longrightarrow> y \<in> set xs \<Longrightarrow> Q y \<Longrightarrow> P (f x) (f y)" for y
  proof -
    assume q: "Q x" and y: "y \<in> set xs" "Q y"
    then obtain j where "j < length xs" "xs ! j = y" by (auto simp: in_set_conv_nth)
    then show ?thesis using Cons.prems[rule_format, of 0 "Suc j"] q y by simp
  qed
  show ?case using Cons.IH[OF tl] hd by auto
qed

text \<open>
  C7.  In every such table no occupied slot lies before the ideal bucket of its key.
\<close>

theorem C7_displacement:
  assumes "1 \<le> lg" "lg \<le> 30" "reaches lg ops t"
  shows "\<forall>i < length (entries t). key (entries t ! i) \<noteq> EMPTY_KEY \<longrightarrow>
           hashToIndex lg (hash (key (entries t ! i))) \<le> int i"
  using kinv_bucket[OF reaches_kinv[OF assms] ] by (simp add: keys_nth)

theorem C7_displacement_witness:
  "(1::nat) \<le> 3 \<and> (3::nat) \<le> 30 \<and> reaches 3 fill8 full8 \<and>
   (1::nat) < length (entries full8) \<and> key (entries full8 ! 1) \<noteq> EMPTY_KEY \<and>
   hashToIndex 3 (hash (key (entries full8 ! 1))) = 0 \<and>
   hashToIndex 3 (hash (key (entries full8 ! 1))) \<le> int 1"
proof -
  have a: "(1::nat) < length (entries full8)" "key (entries full8 ! 1) \<noteq> EMPTY_KEY"
    by (simp_all add: full8_def EMPTY_KEY_def)
  have b: "hashToIndex 3 (hash (key (entries full8 ! 1))) = 0"
    by (simp add: full8_def hashToIndex_def hash_def SHIFT_def charCodeAt_def or0_def)
  have c: "(1::nat) \<le> 3" "(3::nat) \<le> 30" by simp_all
  show ?thesis
    using a b c reaches_full8 C7_displacement[OF c reaches_full8, rule_format, of 1]
    by simp
qed

section \<open>The array keeps its length\<close>

lemma getOrPut_loop_length:
  "length (entries (snd (getOrPut_loop k t it i ins))) = length (entries t)"
proof (induction k t it i ins rule: getOrPut_loop.induct)
  case (1 k t it i insertedAt)
  show ?case
    using 1
    by (subst getOrPut_loop.simps) (auto simp: Let_def split: option.splits)
qed

lemma getOrPut_length: "length (entries (snd (getOrPut lg t k))) = length (entries t)"
  by (simp add: getOrPut_def getOrPut_loop_length)

lemma put_length: "length (entries (snd (put lg t k v))) = length (entries t)"
  using getOrPut_length[of lg t k]
  by (cases "getOrPut lg t k") (auto simp: put_def split: sum.splits)

lemma del_shift_length:
  "length (entries (snd (del_shift lg t i))) = length (entries t)"
proof (induction lg t i rule: del_shift.induct)
  case (1 lg t i)
  show ?case
    using 1
    by (subst del_shift.simps) (auto simp: Let_def split: option.splits)
qed

lemma del_length: "length (entries (snd (del lg t k))) = length (entries t)"
proof (cases "del_find (entries t) k (hashToIndex lg (hash k))")
  case (Inl e)
  then show ?thesis by (simp add: del_def)
next
  case (Inr f)
  show ?thesis
  proof (cases f)
    case None
    then show ?thesis using Inr by (simp add: del_def)
  next
    case (Some i)
    then show ?thesis
      using Inr del_shift_length[of lg t i]
      by (cases "del_shift lg t i") (auto simp: del_def Let_def split: sum.splits)
  qed
qed

lemma apply_op_length:
  "apply_op lg t x = Some t' \<Longrightarrow> length (entries t') = length (entries t)"
proof (cases x)
  case (Put k v)
  assume "apply_op lg t x = Some t'"
  then show ?thesis using Put put_length[of lg t k v]
    by (auto split: prod.splits sum.splits)
next
  case (GetOrPut k)
  assume "apply_op lg t x = Some t'"
  then show ?thesis using GetOrPut getOrPut_length[of lg t k]
    by (auto split: prod.splits sum.splits)
next
  case (Del k)
  assume "apply_op lg t x = Some t'"
  then show ?thesis using Del del_length[of lg t k]
    by (auto split: prod.splits sum.splits)
qed

lemma run_length: "run lg t ops = Some t' \<Longrightarrow> length (entries t') = length (entries t)"
proof (induction ops arbitrary: t)
  case Nil
  then show ?case by simp
next
  case (Cons x xs)
  then show ?case
    by (auto split: option.splits dest: apply_op_length)
qed

lemma reaches_length:
  "reaches lg ops t \<Longrightarrow> length (entries t) = nat (CAPACITY lg + OVERFLOW lg)"
  unfolding reaches_def using run_length[of lg "init lg" ops t] by (simp add: init_def)

lemma OVERFLOW_nonneg: "lg \<le> 30 \<Longrightarrow> 0 \<le> OVERFLOW lg"
  by (simp add: OVERFLOW_def CAPACITY_def SHIFT_def pos_imp_zdiv_nonneg_iff)

lemma bucket_in_array:
  assumes "1 \<le> lg" "lg \<le> 30" "legal_key k" "0 \<le> hashToIndex lg (hash k)"
    and "length es = nat (CAPACITY lg + OVERFLOW lg)"
  shows "nonneg_key k \<and> hashToIndex lg (hash k) = int (nat (hashToIndex lg (hash k))) \<and>
         nat (hashToIndex lg (hash k)) < length es - 1 \<and> es \<noteq> []"
proof -
  have nk: "nonneg_key k"
    using hashToIndex_negative[OF assms(3), of lg] assms(4) by fastforce
  have "2 * hashToIndex lg (hash k) < CAPACITY lg"
    using hashToIndex_range[OF assms(3) nk assms(1,2)] by simp
  moreover have "2 \<le> CAPACITY lg"
    using assms(1) self_le_power[of "2::int" lg] by (simp add: CAPACITY_def)
  ultimately show ?thesis
    using nk assms(4,5) OVERFLOW_nonneg[OF assms(2)] by auto
qed

section \<open>The overflow margin\<close>

text \<open>
  A sentinel in the last slot does not follow from \<open>len < capacity\<close>: 57 calls of \<^verbatim>\<open>put\<close>
  with keys of bucket 31 fill the slots 31 to 87 of the 88, and 57 is below the capacity.
\<close>

lemma reaches_crowded: "reaches 6 crowd crowded"
  by code_simp

section \<open>Termination of the probes inside the array\<close>

lemma last_slot:
  assumes "es \<noteq> []" "key (last es) = EMPTY_KEY"
  shows "length es - 1 < length es" "key (es ! (length es - 1)) = EMPTY_KEY"
  using assms by (simp_all add: last_conv_nth)

lemma first_ge_exists:
  assumes "legal_key k" "b \<le> p" "p < length es" "key (es ! p) = EMPTY_KEY"
  obtains i0 where "first_ge es k b = Some i0" "i0 \<le> p"
proof (cases "first_ge es k b")
  case None
  then have "\<not> k \<le> key (es ! p)"
    using assms(2,3) by (simp add: first_ge_def find_upt_None_iff)
  then show ?thesis using legal_less_EMPTY[OF assms(1)] assms(4) by simp
next
  case (Some i0)
  then have "\<forall>x. b \<le> x \<and> x < i0 \<longrightarrow> \<not> k \<le> key (es ! x)"
    by (simp add: first_ge_Some)
  then have "\<not> p < i0"
    using assms(2,4) legal_less_EMPTY[OF assms(1)] by auto
  then show ?thesis using that[OF Some] by simp
qed

lemma first_empty_exists:
  assumes "i \<le> p" "p < length es" "key (es ! p) = EMPTY_KEY"
  obtains q where "first_empty es i = Some q" "q \<le> p"
proof (cases "first_empty es i")
  case None
  then show ?thesis
    using assms by (simp add: first_empty_def find_upt_None_iff)
next
  case (Some q)
  then have "\<forall>x. i \<le> x \<and> x < q \<longrightarrow> key (es ! x) \<noteq> EMPTY_KEY"
    by (simp add: first_empty_Some)
  then have "\<not> p < q" using assms by auto
  then show ?thesis using that[OF Some] by simp
qed



lemma getOrPut_no_TypeError:
  assumes "legal_key k" "hashToIndex lg (hash k) = int b" "b \<le> p" "p < length (entries t)"
    "key (entries t ! p) = EMPTY_KEY"
  shows "fst (getOrPut lg t k) \<noteq> Inl TypeError"
  using getOrPut_loop_no_TypeError[OF assms(3,4,5) legal_less_EMPTY[OF assms(1)] ]
  by (simp add: getOrPut_def assms(2))


lemma len_init: "len (init lg) = 0"
  by (simp add: init_def)

lemma length_init: "length (entries (init lg)) = nat (CAPACITY lg + OVERFLOW lg)"
  by (simp add: init_def)




section \<open>Round trip\<close>

lemma getOrPut_returns:
  assumes "legal_key k" "hashToIndex lg (hash k) = int b" "b \<le> p" "p < length (entries t)"
    "key (entries t ! p) = EMPTY_KEY" "len t < CAPACITY lg"
  obtains r t1 where "getOrPut lg t k = (Inr r, t1)"
proof -
  have 1: "fst (getOrPut lg t k) \<noteq> Inl TypeError"
    by (rule getOrPut_no_TypeError[OF assms(1-5)])
  have 2: "fst (getOrPut lg t k) \<noteq> Inl MapFull"
    using assms(6) getOrPut_loop_not_MapFull by (simp add: getOrPut_def)
  obtain x t1 where g: "getOrPut lg t k = (x, t1)" by (cases "getOrPut lg t k")
  show ?thesis
  proof (cases x)
    case (Inl e)
    then show ?thesis using 1 2 g by (cases e) simp_all
  next
    case (Inr r)
    then show ?thesis using that g by simp
  qed
qed

lemma get_loop_after:
  assumes ge: "first_ge es k b = Some i0"
    and len: "length es' = length es"
    and same: "\<forall>x<i0. es' ! x = es ! x"
    and here: "key (es' ! i0) = k" "val (es' ! i0) = Some v"
  shows "get_loop es' k (int b) = Inr (Value (Some v))"
proof -
  have "first_ge es' k b = Some i0"
    using ge len same here(1) by (auto simp: first_ge_Some)
  then show ?thesis
    by (simp add: get_loop_first_ge here)
qed

text \<open>Whenever \<^verbatim>\<open>put\<close> returns on a table with the invariant, \<^verbatim>\<open>get\<close> finds the value.\<close>

lemma put_get:
  assumes inv: "kinv lg (keys t)" and lg: "1 \<le> lg" "lg \<le> 30"
    and k: "legal_key k"
    and ok: "put lg t k v = (Inr u, t')"
  shows "get lg t' k = Inr (Value (Some v))"
proof -
  obtain r t1 where g: "getOrPut lg t k = (Inr r, t1)"
    and t': "t' = t1\<lparr>entries := (entries t1)
                 [nat (index r) := (entries t1 ! nat (index r))\<lparr>key := k, val := Some v\<rparr>]\<rparr>"
    using ok by (auto simp: put_def split: prod.splits sum.splits)
  from inv lg k g show ?thesis
  proof (cases rule: getOrPut_cases)
    case (found b i0)
    from found(3) have i0n: "i0 < length (entries t)" by (simp add: first_ge_Some)
    have "get_loop (entries t') k (int b) = Inr (Value (Some v))"
      by (rule get_loop_after[OF found(3)])
         (use i0n in \<open>simp_all add: t' found(5,6)\<close>)
    then show ?thesis by (simp add: get_def found(2))
  next
    case (new b i0 p)
    from new(3) have i0n: "i0 < length (entries t)" by (simp add: first_ge_Some)
    have "get_loop (entries t') k (int b) = Inr (Value (Some v))"
      by (rule get_loop_after[OF new(3)])
         (use i0n in \<open>simp_all add: t' new(6,7) nth_shift_right\<close>)
    then show ?thesis by (simp add: get_def new(2))
  qed
qed

text \<open>
  C8, as stated, fails, in two ways.  On the empty table of the source's size \<^verbatim>\<open>put\<close> of
  the legal key \<^verbatim>\<open>"\x80"\<close> throws a TypeError and stores nothing, and so does the \<^verbatim>\<open>get\<close>
  that follows.  And on the table of capacity 64 that 57 keys of bucket 31 fill up to its
  last slot, which is reached and not full, \<^verbatim>\<open>put\<close> of one more key of that bucket runs off
  the end of the array and throws.
\<close>

theorem C8_counterexample:
  "(legal_key [0x80] \<and> reaches lg_src [] (init lg_src) \<and>
    len (init lg_src) < CAPACITY lg_src \<and>
    put lg_src (init lg_src) [0x80] [0x31] = (Inl TypeError, init lg_src) \<and>
    get lg_src (snd (put lg_src (init lg_src) [0x80] [0x31])) [0x80] = Inl TypeError) \<and>
   (legal_key [0x7F, 0x40] \<and> reaches 6 crowd crowded \<and> len crowded < CAPACITY 6 \<and>
    0 \<le> hashToIndex 6 (hash [0x7F, 0x40]) \<and>
    fst (put 6 crowded [0x7F, 0x40] [0x31]) = Inl TypeError)"
proof -
  have h: "hashToIndex lg_src (hash [0x80]) = - 8388608"
    by (simp add: hashToIndex_def hash_def SHIFT_def charCodeAt_def or0_def lg_src_def)
  have l: "len (init lg_src) < CAPACITY lg_src"
    by (simp add: len_init CAPACITY_def)
  have p: "put lg_src (init lg_src) [0x80] [0x31] = (Inl TypeError, init lg_src)"
    using l by (simp add: put_def getOrPut_def h getOrPut_loop.simps[of _ _ _ "- 8388608"] at_def)
  have A: "legal_key [0x80] \<and> reaches lg_src [] (init lg_src) \<and>
    len (init lg_src) < CAPACITY lg_src \<and>
    put lg_src (init lg_src) [0x80] [0x31] = (Inl TypeError, init lg_src) \<and>
    get lg_src (snd (put lg_src (init lg_src) [0x80] [0x31])) [0x80] = Inl TypeError"
    using l
    by (simp add: p h legal_key_def reaches_def at_def get_def get_loop.simps[of _ _ "- 8388608"])
  have B: "legal_key [0x7F, 0x40] \<and> len crowded < CAPACITY 6 \<and>
    0 \<le> hashToIndex 6 (hash [0x7F, 0x40]) \<and>
    fst (put 6 crowded [0x7F, 0x40] [0x31]) = Inl TypeError"
    by code_simp
  from A B reaches_crowded show ?thesis by blast
qed

text \<open>
  C8, amended.  For a legal key whose ideal bucket is not negative, on a reached table
  that is not full and whose last slot holds the sentinel, \<^verbatim>\<open>put(k, v)\<close> returns normally
  and the \<^verbatim>\<open>get(k)\<close> after it returns \<open>v\<close>.
\<close>

theorem C8_put_get:
  assumes "1 \<le> lg" "lg \<le> 30" "reaches lg ops t"
    and "legal_key k" "0 \<le> hashToIndex lg (hash k)"
    and "len t < CAPACITY lg" "key (last (entries t)) = EMPTY_KEY"
  shows "fst (put lg t k v) = Inr () \<and> get lg (snd (put lg t k v)) k = Inr (Value (Some v))"
proof -
  let ?b = "nat (hashToIndex lg (hash k))"
  let ?p = "length (entries t) - 1"
  note B = bucket_in_array[OF assms(1,2,4,5) reaches_length[OF assms(3)] ]
  have b: "hashToIndex lg (hash k) = int ?b" and bp: "?b \<le> ?p" and ne: "entries t \<noteq> []"
    using B by simp_all
  note P = last_slot[OF ne assms(7)]
  obtain r t1 where g: "getOrPut lg t k = (Inr r, t1)"
    using getOrPut_returns[OF assms(4) b bp P assms(6)] by blast
  then obtain t' where p: "put lg t k v = (Inr (), t')"
    by (simp add: put_def)
  show ?thesis
    using put_get[OF reaches_kinv[OF assms(1,2,3)] assms(1,2,4) p] p by simp
qed

theorem C8_put_get_witness:
  "(1::nat) \<le> 3 \<and> (3::nat) \<le> 30 \<and> reaches 3 scenario scenario_table \<and> legal_key [0x42] \<and>
   0 \<le> hashToIndex 3 (hash [0x42]) \<and> len scenario_table < CAPACITY 3 \<and>
   key (last (entries scenario_table)) = EMPTY_KEY \<and>
   fst (put 3 scenario_table [0x42] [0x39]) = Inr () \<and>
   get 3 (snd (put 3 scenario_table [0x42] [0x39])) [0x42] = Inr (Value (Some [0x39]))"
proof -
  have a: "(1::nat) \<le> 3" "(3::nat) \<le> 30" by simp_all
  have k: "legal_key [0x42]" by (simp add: legal_key_def)
  have h: "0 \<le> hashToIndex 3 (hash [0x42])"
    by (simp add: hashToIndex_def hash_def SHIFT_def charCodeAt_def or0_def)
  have l: "len scenario_table < CAPACITY 3"
    by (simp add: scenario_table_def CAPACITY_def)
  have e: "key (last (entries scenario_table)) = EMPTY_KEY"
    by (simp add: scenario_table_def)
  show ?thesis
    using a k h l e reaches_scenario
      C8_put_get[OF a reaches_scenario k h l e, of "[0x39]"] by simp
qed

section \<open>What getOrPut reports\<close>

lemma getOrPut_present:
  assumes inv: "kinv lg (keys t)" and lg: "1 \<le> lg" "lg \<le> 30"
    and k: "legal_key k" and len: "len t < CAPACITY lg"
    and i: "i < length (entries t)" "key (entries t ! i) = k"
  shows "getOrPut lg t k = (Inr \<lparr>exists = True, index = int i\<rparr>, t)"
proof -
  have iK: "i < length (keys t)" using i by simp
  have occ: "keys t ! i \<noteq> EMPTY_KEY"
    using legal_less_EMPTY[OF k] i by (auto simp: keys_nth)
  have ki: "keys t ! i = k" using i by (simp add: keys_nth)
  have nk: "nonneg_key k" using kinv_nonneg[OF inv iK occ] ki by simp
  have bi: "hashToIndex lg (hash k) \<le> int i" using kinv_bucket[OF inv iK occ] ki by simp
  obtain b where b: "hashToIndex lg (hash k) = int b"
    using hashToIndex_range[OF k nk lg] by (metis nat_0_le)
  have "\<forall>x. b \<le> x \<and> x < i \<longrightarrow> \<not> k \<le> key (entries t ! x)"
  proof (intro allI impI)
    fix x assume x: "b \<le> x \<and> x < i"
    then have o: "keys t ! x \<noteq> EMPTY_KEY"
      using kinv_run[OF inv iK occ, of x] b ki by simp
    have "keys t ! x < keys t ! i"
      using kinv_order[OF inv _ iK o occ] x by simp
    then show "\<not> k \<le> key (entries t ! x)"
      using x i ki by (simp add: keys_nth)
  qed
  then have ge: "first_ge (entries t) k b = Some i"
    using i b bi by (simp add: first_ge_Some)
  show ?thesis by (rule getOrPut_found[OF len b ge i(2)])
qed

text \<open>
  C9, as stated, fails: on the full table of capacity 8 the key \<^verbatim>\<open>"\x10"\<close> is present in
  slot 1, and \<^verbatim>\<open>getOrPut\<close> throws the map-full error instead of reporting that it exists.
\<close>

theorem C9_counterexample:
  "reaches 3 fill8 full8 \<and> legal_key [0x10] \<and> key (entries full8 ! 1) = [0x10] \<and>
   getOrPut 3 full8 [0x10] = (Inl MapFull, full8)"
  by code_simp

text \<open>
  C9, amended.  On a reached table that is not full: \<^verbatim>\<open>getOrPut\<close> of a legal key that is
  present in slot \<open>i\<close> returns \<^verbatim>\<open>{exists: true, index: i}\<close> and leaves entries and \<open>len\<close> as
  they are; \<^verbatim>\<open>getOrPut\<close> of a legal key that is absent, whose ideal bucket is not negative,
  with the sentinel in the last slot, returns \<^verbatim>\<open>{exists: false, index}\<close>, where \<open>index\<close> is the
  first slot from the ideal bucket on whose key is greater than the requested one (the
  slot of the first swap); afterwards the requested key is in that slot and \<open>len\<close> is
  greater by exactly one.
\<close>

theorem C9_getOrPut:
  assumes "1 \<le> lg" "lg \<le> 30" "reaches lg ops t" "legal_key k" "len t < CAPACITY lg"
  shows "(\<forall>i. i < length (entries t) \<and> key (entries t ! i) = k \<longrightarrow>
            getOrPut lg t k = (Inr \<lparr>exists = True, index = int i\<rparr>, t)) \<and>
         ((\<forall>i<length (entries t). key (entries t ! i) \<noteq> k) \<and>
          0 \<le> hashToIndex lg (hash k) \<and> key (last (entries t)) = EMPTY_KEY \<longrightarrow>
            (\<exists>i0. fst (getOrPut lg t k) = Inr \<lparr>exists = False, index = int i0\<rparr> \<and>
                  hashToIndex lg (hash k) \<le> int i0 \<and> i0 < length (entries t) \<and>
                  (\<forall>j. hashToIndex lg (hash k) \<le> int j \<and> j < i0 \<longrightarrow> key (entries t ! j) < k) \<and>
                  k < key (entries t ! i0) \<and>
                  key (entries (snd (getOrPut lg t k)) ! i0) = k \<and>
                  len (snd (getOrPut lg t k)) = len t + 1))"
proof (intro conjI allI impI)
  note inv = reaches_kinv[OF assms(1,2,3)]
  fix i assume "i < length (entries t) \<and> key (entries t ! i) = k"
  then show "getOrPut lg t k = (Inr \<lparr>exists = True, index = int i\<rparr>, t)"
    using getOrPut_present[OF inv assms(1,2,4,5), of i] by simp
next
  note inv = reaches_kinv[OF assms(1,2,3)]
  assume a: "(\<forall>i<length (entries t). key (entries t ! i) \<noteq> k) \<and>
          0 \<le> hashToIndex lg (hash k) \<and> key (last (entries t)) = EMPTY_KEY"
  let ?b = "nat (hashToIndex lg (hash k))"
  let ?p = "length (entries t) - 1"
  have h: "0 \<le> hashToIndex lg (hash k)" and e: "key (last (entries t)) = EMPTY_KEY"
    using a by simp_all
  note B = bucket_in_array[OF assms(1,2,4) h reaches_length[OF assms(3)] ]
  have nk: "nonneg_key k" and b: "hashToIndex lg (hash k) = int ?b" and bp: "?b \<le> ?p"
    and ne: "entries t \<noteq> []"
    using B by simp_all
  note P = last_slot[OF ne e]
  obtain i0 where ge: "first_ge (entries t) k ?b = Some i0" and i0p: "i0 \<le> ?p"
    using first_ge_exists[OF assms(4) bp P] by blast
  from ge have G: "?b \<le> i0" "i0 < length (entries t)" "k \<le> key (entries t ! i0)"
    "\<forall>x. ?b \<le> x \<and> x < i0 \<longrightarrow> \<not> k \<le> key (entries t ! x)"
    by (auto simp: first_ge_Some)
  have nek: "key (entries t ! i0) \<noteq> k" using a G(2) by simp
  obtain p where fe: "first_empty (entries t) i0 = Some p"
    using first_empty_exists[OF i0p P] by blast
  then have ip: "i0 \<le> p" "p < length (entries t)" by (simp_all add: first_empty_Some)
  note N = getOrPut_new[OF inv assms(1,2,4) nk assms(5) b ge nek fe]
  have 1: "fst (getOrPut lg t k) = Inr \<lparr>exists = False, index = int i0\<rparr>"
    by (simp add: N)
  have 2: "hashToIndex lg (hash k) \<le> int i0" using b G(1) by simp
  have 3: "\<forall>j. hashToIndex lg (hash k) \<le> int j \<and> j < i0 \<longrightarrow> key (entries t ! j) < k"
  proof (intro allI impI)
    fix j assume j: "hashToIndex lg (hash k) \<le> int j \<and> j < i0"
    then have "?b \<le> j" by linarith
    then have "\<not> k \<le> key (entries t ! j)" using G(4) j by blast
    then show "key (entries t ! j) < k" by simp
  qed
  have 4: "k < key (entries t ! i0)" using G(3) nek by simp
  have 5: "key (entries (snd (getOrPut lg t k)) ! i0) = k"
    using G(2) ip by (simp add: N nth_shift_right)
  have 6: "len (snd (getOrPut lg t k)) = len t + 1" by (simp add: N)
  show "\<exists>i0. fst (getOrPut lg t k) = Inr \<lparr>exists = False, index = int i0\<rparr> \<and>
                  hashToIndex lg (hash k) \<le> int i0 \<and> i0 < length (entries t) \<and>
                  (\<forall>j. hashToIndex lg (hash k) \<le> int j \<and> j < i0 \<longrightarrow> key (entries t ! j) < k) \<and>
                  k < key (entries t ! i0) \<and>
                  key (entries (snd (getOrPut lg t k)) ! i0) = k \<and>
                  len (snd (getOrPut lg t k)) = len t + 1"
    using 1 2 G(2) 3 4 5 6 by blast
qed

theorem C9_getOrPut_witness:
  "(1::nat) \<le> 3 \<and> (3::nat) \<le> 30 \<and> reaches 3 scenario scenario_table \<and>
   legal_key [0x41] \<and> legal_key [0x42] \<and> len scenario_table < CAPACITY 3 \<and>
   (2::nat) < length (entries scenario_table) \<and> key (entries scenario_table ! 2) = [0x41] \<and>
   getOrPut 3 scenario_table [0x41] = (Inr \<lparr>exists = True, index = 2\<rparr>, scenario_table) \<and>
   list_all (\<lambda>entry. key entry \<noteq> [0x42]) (entries scenario_table) \<and>
   0 \<le> hashToIndex 3 (hash [0x42]) \<and> key (last (entries scenario_table)) = EMPTY_KEY \<and>
   (\<exists>i0. fst (getOrPut 3 scenario_table [0x42]) = Inr \<lparr>exists = False, index = int i0\<rparr> \<and>
         key (entries (snd (getOrPut 3 scenario_table [0x42])) ! i0) = [0x42] \<and>
         len (snd (getOrPut 3 scenario_table [0x42])) = len scenario_table + 1)"
proof -
  have a: "(1::nat) \<le> 3" "(3::nat) \<le> 30" by simp_all
  have k1: "legal_key [0x41]" and k2: "legal_key [0x42]" by (simp_all add: legal_key_def)
  have l: "len scenario_table < CAPACITY 3"
    by (simp add: scenario_table_def CAPACITY_def)
  have p: "(2::nat) < length (entries scenario_table) \<and> key (entries scenario_table ! 2) = [0x41]"
    by (simp add: scenario_table_def)
  have ab: "list_all (\<lambda>entry. key entry \<noteq> [0x42]) (entries scenario_table)"
    by (simp add: scenario_table_def EMPTY_KEY_def)
  then have ab': "\<forall>i<length (entries scenario_table). key (entries scenario_table ! i) \<noteq> [0x42]"
    by (simp add: list_all_length)
  have h: "0 \<le> hashToIndex 3 (hash [0x42])"
    by (simp add: hashToIndex_def hash_def SHIFT_def charCodeAt_def or0_def)
  have e: "key (last (entries scenario_table)) = EMPTY_KEY"
    by (simp add: scenario_table_def)
  note T1 = C9_getOrPut[OF a reaches_scenario k1 l]
  note T2 = C9_getOrPut[OF a reaches_scenario k2 l]
  have 1: "getOrPut 3 scenario_table [0x41] = (Inr \<lparr>exists = True, index = 2\<rparr>, scenario_table)"
    using T1[THEN conjunct1, rule_format, of 2] p by simp
  have 2: "\<exists>i0. fst (getOrPut 3 scenario_table [0x42]) = Inr \<lparr>exists = False, index = int i0\<rparr> \<and>
         key (entries (snd (getOrPut 3 scenario_table [0x42])) ! i0) = [0x42] \<and>
         len (snd (getOrPut 3 scenario_table [0x42])) = len scenario_table + 1"
    using T2[THEN conjunct2, rule_format] ab' h e by blast
  show ?thesis
    using a reaches_scenario k1 k2 l p 1 ab h e 2 by simp
qed

section \<open>The backward shift of del\<close>

text \<open>
  C4, as stated, fails.  In the example table slot 1 holds \<^verbatim>\<open>"!"\<close> (bucket 1) and slot 2
  holds \<^verbatim>\<open>"A"\<close> (bucket 2).  Deleting \<^verbatim>\<open>"!"\<close> opens the gap at \<open>i = 1\<close>; the ideal bucket of
  \<open>entries[2]\<close> is \<open>2 > 1\<close>, so the first iteration is the terminating one.  The loop breaks
  with \<open>i = 1\<close>, not 2: slot 1 is set to the sentinel, and slot 2 still holds \<^verbatim>\<open>"A"\<close>.
\<close>

theorem C4_counterexample:
  "reaches 3 scenario scenario_table \<and>
   del_find (entries scenario_table) [0x21] (hashToIndex 3 (hash [0x21])) = Inr (Some 1) \<and>
   key (entries scenario_table ! 2) = [0x41] \<and>
   hashToIndex 3 (hash (key (entries scenario_table ! 2))) = 2 \<and>
   fst (del_shift 3 scenario_table 1) = Inr 1 \<and>
   fst (del 3 scenario_table [0x21]) = Inr (Value (Some [0x30])) \<and>
   key (entries (snd (del 3 scenario_table [0x21])) ! 1) = EMPTY_KEY \<and>
   key (entries (snd (del 3 scenario_table [0x21])) ! 2) = [0x41] \<and>
   key (entries (snd (del 3 scenario_table [0x21])) ! 2) \<noteq> EMPTY_KEY"
  by code_simp

lemma shift_left_gap:
  assumes "Suc g < length es"
  shows "(shift_left es d g)[g := e] =
         map (\<lambda>j. if d \<le> j \<and> j < g then es ! Suc j else if j = g then e else es ! j)
           [0..<length es]"
  using assms by (intro nth_equalityI) (auto simp: nth_list_update nth_shift_left)

text \<open>
  C4, amended.  Let the first loop of \<^verbatim>\<open>del\<close> find the key in slot \<open>d\<close>, and let \<open>g \<ge> d\<close> be
  the first gap position at which \<open>entries[g + 1]\<close> is the sentinel or has its ideal bucket
  after \<open>g\<close>.  On each iteration before, \<open>entries[i + 1]\<close> is moved into \<open>entries[i]\<close> and the
  gap advances to \<open>i + 1\<close>.  The terminating iteration copies \<open>entries[g + 1]\<close> into
  \<open>entries[g]\<close> as well, but the gap stays at \<open>g\<close>: the loop breaks with \<open>i = g\<close>, slot \<open>g\<close>
  is set to the sentinel, \<open>entries[g + 1]\<close> is left where it is, and \<open>len\<close> is decremented
  by one.
\<close>

theorem C4_backward_shift:
  assumes "del_find (entries t) k (hashToIndex lg (hash k)) = Inr (Some (int d))"
    and "d \<le> g" "Suc g < length (entries t)"
    and "\<forall>x. d \<le> x \<and> x < g \<longrightarrow>
           key (entries t ! Suc x) \<noteq> EMPTY_KEY \<and>
           hashToIndex lg (hash (key (entries t ! Suc x))) \<le> int x"
    and "key (entries t ! Suc g) = EMPTY_KEY \<or>
         int g < hashToIndex lg (hash (key (entries t ! Suc g)))"
  shows "fst (del_shift lg t (int d)) = Inr (int g) \<and>
         del lg t k =
           (Inr (Value (val (entries t ! d))),
            t\<lparr>entries :=
                 map (\<lambda>j. if d \<le> j \<and> j < g then entries t ! Suc j
                          else if j = g then \<lparr>key = EMPTY_KEY, val = None\<rparr>
                          else entries t ! j)
                   [0..<length (entries t)],
              len := len t - 1\<rparr>) \<and>
         key (entries (snd (del lg t k)) ! g) = EMPTY_KEY \<and>
         entries (snd (del lg t k)) ! Suc g = entries t ! Suc g \<and>
         len (snd (del lg t k)) = len t - 1"
proof -
  have fs: "first_stop lg (entries t) d = Some g"
    using assms(2-5) by (auto simp: first_stop_Some)
  note S = del_shift_stop[OF fs]
  have D: "del lg t k =
           (Inr (Value (val (entries t ! d))),
            t\<lparr>entries := (shift_left (entries t) d g)[g := \<lparr>key = EMPTY_KEY, val = None\<rparr>],
              len := len t - 1\<rparr>)"
    by (simp add: del_def assms(1) S)
  have g: "g < length (entries t)" using assms(3) by simp
  show ?thesis
    using assms(3) g
    by (simp add: S D shift_left_gap[OF assms(3)])
qed

theorem C4_backward_shift_witness:
  "del_find (entries scenario_table) [0x41] (hashToIndex 3 (hash [0x41])) = Inr (Some (int 2)) \<and>
   (2::nat) \<le> 3 \<and> Suc 3 < length (entries scenario_table) \<and>
   key (entries scenario_table ! Suc 2) \<noteq> EMPTY_KEY \<and>
   hashToIndex 3 (hash (key (entries scenario_table ! Suc 2))) \<le> int 2 \<and>
   key (entries scenario_table ! Suc 3) = EMPTY_KEY \<and>
   fst (del_shift 3 scenario_table (int 2)) = Inr (int 3) \<and>
   key (entries (snd (del 3 scenario_table [0x41])) ! 3) = EMPTY_KEY \<and>
   entries (snd (del 3 scenario_table [0x41])) ! Suc 3 = entries scenario_table ! Suc 3 \<and>
   len (snd (del 3 scenario_table [0x41])) = len scenario_table - 1"
proof -
  have f: "del_find (entries scenario_table) [0x41] (hashToIndex 3 (hash [0x41])) = Inr (Some (int 2))"
    by code_simp
  have n: "(2::nat) \<le> 3" "Suc 3 < length (entries scenario_table)"
    by (simp_all add: scenario_table_def)
  have c2: "key (entries scenario_table ! Suc 2) \<noteq> EMPTY_KEY \<and>
        hashToIndex 3 (hash (key (entries scenario_table ! Suc 2))) \<le> int 2"
    by (simp add: scenario_table_def EMPTY_KEY_def hashToIndex_def hash_def SHIFT_def
        charCodeAt_def or0_def)
  have x2: "x = 2" if "2 \<le> x \<and> x < 3" for x :: nat
    using that by simp
  have c: "\<forall>x. 2 \<le> x \<and> x < 3 \<longrightarrow>
           key (entries scenario_table ! Suc x) \<noteq> EMPTY_KEY \<and>
           hashToIndex 3 (hash (key (entries scenario_table ! Suc x))) \<le> int x"
    using c2 x2 by blast
  have s: "key (entries scenario_table ! Suc 3) = EMPTY_KEY"
    by (simp add: scenario_table_def)
  then have s': "key (entries scenario_table ! Suc 3) = EMPTY_KEY \<or>
         int 3 < hashToIndex 3 (hash (key (entries scenario_table ! Suc 3)))"
    by simp
  show ?thesis
    using f n c2 s C4_backward_shift[OF f n c s'] by simp
qed

section \<open>Order\<close>

text \<open>A chain that runs off the array has moved every entry from \<open>i\<close> on one slot right.\<close>

lemma getOrPut_loop_overrun_state:
  assumes "first_empty (entries t) i = None" "i < length (entries t)"
    and "\<forall>j. i \<le> j \<and> j < length (entries t) \<longrightarrow> k \<le> key (entries t ! j) \<and> key (entries t ! j) \<noteq> k"
  shows "snd (getOrPut_loop k t it (int i) ins) =
         t\<lparr>entries := shift_right (entries t) it i (length (entries t) - 1)\<rparr>"
  using assms
proof (induction "length (entries t) - i" arbitrary: i t it ins)
  case 0
  then show ?case by simp
next
  case (Suc d)
  have lt: "i < length (entries t)" by (rule Suc(4))
  from Suc(3) have ne: "\<forall>x. i \<le> x \<and> x < length (entries t) \<longrightarrow> key (entries t ! x) \<noteq> EMPTY_KEY"
    by (simp add: first_empty_def find_upt_None_iff)
  let ?t1 = "t\<lparr>entries := (entries t)[i := it]\<rparr>"
  have step: "int i + 1 = int (Suc i)" by simp
  have here: "k \<le> key (entries t ! i)" "key (entries t ! i) \<noteq> k" "key (entries t ! i) \<noteq> EMPTY_KEY"
    using Suc(5) ne lt by auto
  have unf: "getOrPut_loop k t it (int i) ins =
      getOrPut_loop k ?t1 (entries t ! i) (int (Suc i))
        (case ins of None \<Rightarrow> Some (int i) | Some a \<Rightarrow> Some a)"
    using here lt
    by (subst getOrPut_loop.simps) (simp add: at_nat step del: of_nat_Suc)
  show ?case
  proof (cases "Suc i < length (entries t)")
    case False
    then have last: "length (entries t) - 1 = i" using lt by simp
    have E: "getOrPut_loop k ?t1 (entries t ! i) (int (Suc i))
        (case ins of None \<Rightarrow> Some (int i) | Some a \<Rightarrow> Some a) = (Inl TypeError, ?t1)"
      using False by (subst getOrPut_loop.simps) (simp add: at_nat del: of_nat_Suc)
    have "snd (getOrPut_loop k t it (int i) ins) = ?t1"
      by (simp only: unf E snd_conv)
    also have "?t1 = t\<lparr>entries := shift_right (entries t) it i i\<rparr>"
      using lt by (simp add: shift_right_base)
    also have "\<dots> = t\<lparr>entries := shift_right (entries t) it i (length (entries t) - 1)\<rparr>"
      by (simp only: last)
    finally show ?thesis .
  next
    case True
    have fe: "first_empty (entries ?t1) (Suc i) = None"
      using ne by (simp add: first_empty_update) (simp add: first_empty_def find_upt_None_iff)
    have hyp: "\<forall>j. Suc i \<le> j \<and> j < length (entries ?t1) \<longrightarrow>
               k \<le> key (entries ?t1 ! j) \<and> key (entries ?t1 ! j) \<noteq> k"
      using Suc(5) by auto
    have IH: "snd (getOrPut_loop k ?t1 (entries t ! i) (int (Suc i)) ins') =
         ?t1\<lparr>entries := shift_right (entries ?t1) (entries t ! i) (Suc i) (length (entries ?t1) - 1)\<rparr>" for ins'
      using Suc(1)[of ?t1 "Suc i" "entries t ! i" ins', OF _ fe _ hyp] Suc(2) True by simp
    have S: "shift_right ((entries t)[i := it]) (entries t ! i) (Suc i) (length (entries t) - 1) =
          shift_right (entries t) it i (length (entries t) - 1)"
      using True by (intro shift_right_step) simp_all
    have "snd (getOrPut_loop k t it (int i) ins) =
        ?t1\<lparr>entries := shift_right (entries ?t1) (entries t ! i) (Suc i) (length (entries ?t1) - 1)\<rparr>"
      by (simp only: unf IH)
    also have "\<dots> = t\<lparr>entries := shift_right (entries t) it i (length (entries t) - 1)\<rparr>"
      using S by simp
    finally show ?thesis .
  qed
qed

lemma getOrPut_any_kinv:
  assumes inv: "kinv lg (keys t)" and lg: "1 \<le> lg" "lg \<le> 30" and k: "legal_key k"
  shows "kinv lg (keys (snd (getOrPut lg t k)))"
proof (cases "CAPACITY lg \<le> len t")
  case True
  then show ?thesis using inv by (simp add: getOrPut_def)
next
  case False
  then have len: "len t < CAPACITY lg" by simp
  show ?thesis
  proof (cases "hashToIndex lg (hash k) < 0")
    case True
    then show ?thesis using getOrPut_negative(2)[OF True] inv by simp
  next
    case False
    then have nk: "nonneg_key k" using hashToIndex_negative[OF k] by blast
    obtain b where b: "hashToIndex lg (hash k) = int b"
      using False by (metis nat_0_le not_less)
    show ?thesis
    proof (cases "first_ge (entries t) k b")
      case None
      then show ?thesis using getOrPut_no_slot[OF len b None] inv by simp
    next
      case (Some i0)
      note ge = this
      from ge have G: "b \<le> i0" "i0 < length (entries t)" "k \<le> key (entries t ! i0)"
        "\<forall>x. b \<le> x \<and> x < i0 \<longrightarrow> \<not> k \<le> key (entries t ! x)"
        by (auto simp: first_ge_Some)
      show ?thesis
      proof (cases "key (entries t ! i0) = k")
        case True
        then show ?thesis using getOrPut_found[OF len b ge True] inv by simp
      next
        case False
        show ?thesis
        proof (cases "first_empty (entries t) i0")
          case (Some p)
          have "getOrPut lg t k = (Inr \<lparr>exists = False, index = int i0\<rparr>,
              t\<lparr>entries := shift_right (entries t) \<lparr>key = k, val = None\<rparr> i0 p, len := len t + 1\<rparr>)"
            by (rule getOrPut_new[OF inv lg k nk len b ge False Some])
          then show ?thesis
            using getOrPut_kinv[OF inv lg k] by simp
        next
          case None
          let ?p = "length (entries t) - 1"
          have hyp: "\<forall>j. i0 \<le> j \<and> j < length (entries t) \<longrightarrow>
              k \<le> key (entries t ! j) \<and> key (entries t ! j) \<noteq> k"
            using chain_hyp[OF inv lg k nk b ge False] by auto
          from None have ne: "\<forall>x. i0 \<le> x \<and> x < length (entries t) \<longrightarrow> key (entries t ! x) \<noteq> EMPTY_KEY"
            by (simp add: first_empty_def find_upt_None_iff)
          have "getOrPut lg t k = getOrPut_loop k t \<lparr>key = k, val = None\<rparr> (int b) None"
            using len by (simp add: getOrPut_def b)
          also have "\<dots> = getOrPut_loop k t \<lparr>key = k, val = None\<rparr> (int i0) None"
            by (subst getOrPut_loop_first_ge) (simp add: ge)
          finally have st: "snd (getOrPut lg t k) =
              t\<lparr>entries := shift_right (entries t) \<lparr>key = k, val = None\<rparr> i0 ?p\<rparr>"
            by (simp add: getOrPut_loop_overrun_state[OF None G(2) hyp])
          have "kinv lg (shift_right (keys t) k i0 ?p)"
            by (rule kinv_insert[OF inv lg k nk b G(1)])
               (use G False ne in \<open>auto simp: keys_nth\<close>)
          then show ?thesis
            by (simp add: st keys_def map_shift_right)
        qed
      qed
    qed
  qed
qed

lemma put_any_kinv:
  assumes inv: "kinv lg (keys t)" and lg: "1 \<le> lg" "lg \<le> 30" and k: "legal_key k"
  shows "kinv lg (keys (snd (put lg t k v)))"
proof (cases "getOrPut lg t k")
  case (Pair x t1)
  show ?thesis
  proof (cases x)
    case (Inl e)
    then show ?thesis
      using getOrPut_any_kinv[OF inv lg k] Pair by (simp add: put_def)
  next
    case (Inr r)
    then have "put lg t k v = (Inr (), snd (put lg t k v))"
      using Pair by (simp add: put_def)
    then show ?thesis by (rule put_kinv[OF inv lg k])
  qed
qed

lemma apply_any_kinv:
  assumes "kinv lg (keys t)" "1 \<le> lg" "lg \<le> 30" "legal_key (op_key x)"
    and "apply_any lg t x = Some t'"
  shows "kinv lg (keys t')"
proof (cases x)
  case (Put k v)
  then show ?thesis
    using assms put_any_kinv[of lg t k v] by auto
next
  case (GetOrPut k)
  then show ?thesis
    using assms getOrPut_any_kinv[of lg t k] by auto
next
  case (Del k)
  then show ?thesis
    using assms del_kinv[of lg t k _ t']
    by (auto split: prod.splits sum.splits if_splits)
qed

lemma run_any_kinv:
  assumes "1 \<le> lg" "lg \<le> 30"
  shows "kinv lg (keys t) \<Longrightarrow> list_all (\<lambda>x. legal_key (op_key x)) ops \<Longrightarrow>
         run_any lg t ops = Some t' \<Longrightarrow> kinv lg (keys t')"
proof (induction ops arbitrary: t)
  case Nil
  then show ?case by simp
next
  case (Cons x xs)
  from Cons.prems(3) obtain t1 where a: "apply_any lg t x = Some t1"
    and r: "run_any lg t1 xs = Some t'"
    by (auto split: option.splits)
  have "kinv lg (keys t1)"
    using apply_any_kinv[OF Cons.prems(1) assms _ a] Cons.prems(2) by simp
  then show ?case using Cons.IH[OF _ _ r] Cons.prems(2) by simp
qed

lemma apply_op_apply_any: "apply_op lg t x = Some t' \<Longrightarrow> apply_any lg t x = Some t'"
  by (cases x) (auto split: prod.splits sum.splits)

lemma run_run_any: "run lg t ops = Some t' \<Longrightarrow> run_any lg t ops = Some t'"
proof (induction ops arbitrary: t)
  case Nil
  then show ?case by simp
next
  case (Cons x xs)
  then show ?case
    by (auto split: option.splits dest: apply_op_apply_any)
qed

lemma run_any_scenario: "run_any 3 (init 3) scenario_throws = Some scenario_table"
  by code_simp

text \<open>
  C6, as stated, fails.  57 calls of \<^verbatim>\<open>put\<close> with legal keys of bucket 31 fill the table of
  capacity 64 up to its last slot.  Deleting the first of these keys then copies the
  slots 32 to 87 one to the left and throws on reading slot 88: the slots 86 and 87 hold
  the same key, and the keys that \<^verbatim>\<open>scanAscending\<close> yields are not strictly ascending.
\<close>

theorem C6_counterexample:
  "list_all (\<lambda>x. legal_key (op_key x)) (crowd @ [Del [0x7F, 0x00] ]) \<and>
   reaches 6 crowd crowded \<and>
   fst (del 6 crowded [0x7F, 0x00]) = Inl TypeError \<and>
   key (entries (snd (del 6 crowded [0x7F, 0x00])) ! 86) = [0x7F, 0x38] \<and>
   key (entries (snd (del 6 crowded [0x7F, 0x00])) ! 87) = [0x7F, 0x38] \<and>
   \<not> sorted_wrt (<) (map key (scanAscending (snd (del 6 crowded [0x7F, 0x00]))))"
proof -
  have B: "list_all (\<lambda>x. legal_key (op_key x)) (crowd @ [Del [0x7F, 0x00] ]) \<and>
   fst (del 6 crowded [0x7F, 0x00]) = Inl TypeError \<and>
   key (entries (snd (del 6 crowded [0x7F, 0x00])) ! 86) = [0x7F, 0x38] \<and>
   key (entries (snd (del 6 crowded [0x7F, 0x00])) ! 87) = [0x7F, 0x38] \<and>
   \<not> sorted_wrt (<) (map key (scanAscending (snd (del 6 crowded [0x7F, 0x00]))))"
    by code_simp
  from B reaches_crowded show ?thesis by blast
qed

text \<open>
  C6, amended.  After any sequence of calls of \<^verbatim>\<open>put\<close>, \<^verbatim>\<open>getOrPut\<close> and \<^verbatim>\<open>del\<close> with legal
  keys from the empty table, the calls that throw included, in which no \<^verbatim>\<open>del\<close> throws
  after it has changed the table, the occupied entries read from left to right have
  strictly ascending keys; \<^verbatim>\<open>scanAscending\<close> yields exactly the occupied entries, in
  strictly ascending order of their keys, and \<^verbatim>\<open>scanDescending\<close> yields the reverse.
\<close>

theorem C6_order:
  assumes "1 \<le> lg" "lg \<le> 30"
    and "list_all (\<lambda>x. legal_key (op_key x)) ops" "run_any lg (init lg) ops = Some t"
  shows "(\<forall>i j. i < j \<and> j < length (entries t) \<and>
            key (entries t ! i) \<noteq> EMPTY_KEY \<and> key (entries t ! j) \<noteq> EMPTY_KEY \<longrightarrow>
            key (entries t ! i) < key (entries t ! j)) \<and>
         scanAscending t = filter (\<lambda>entry. key entry \<noteq> EMPTY_KEY) (entries t) \<and>
         sorted_wrt (<) (map key (scanAscending t)) \<and>
         scanDescending t = rev (scanAscending t)"
proof -
  note inv = run_any_kinv[OF assms(1,2) kinv_init assms(3,4)]
  have 1: "\<forall>i j. i < j \<and> j < length (entries t) \<and>
            key (entries t ! i) \<noteq> EMPTY_KEY \<and> key (entries t ! j) \<noteq> EMPTY_KEY \<longrightarrow>
            key (entries t ! i) < key (entries t ! j)"
  proof (intro allI impI)
    fix i j
    assume a: "i < j \<and> j < length (entries t) \<and>
            key (entries t ! i) \<noteq> EMPTY_KEY \<and> key (entries t ! j) \<noteq> EMPTY_KEY"
    then show "key (entries t ! i) < key (entries t ! j)"
      using kinv_order[OF inv, of i j] by (simp add: keys_nth)
  qed
  have 2: "sorted_wrt (<) (map key (scanAscending t))"
    unfolding scanAscending_def
    by (rule sorted_wrt_map_filter[where f = key and Q = "\<lambda>entry. key entry \<noteq> EMPTY_KEY"])
       (use 1 in simp)
  show ?thesis
    using 1 2 by (simp add: scanAscending_def scanDescending_def rev_filter)
qed

theorem C6_order_witness:
  "(1::nat) \<le> 3 \<and> (3::nat) \<le> 30 \<and>
   list_all (\<lambda>x. legal_key (op_key x)) scenario_throws \<and>
   run_any 3 (init 3) scenario_throws = Some scenario_table \<and>
   fst (put 3 (init 3) [0x80] [0x39]) = Inl TypeError \<and>
   sorted_wrt (<) (map key (scanAscending scenario_table)) \<and>
   map key (scanAscending scenario_table) = [0x21] # [0x41] # [0x43] # [] \<and>
   scanDescending scenario_table = rev (scanAscending scenario_table)"
proof -
  have a: "(1::nat) \<le> 3" "(3::nat) \<le> 30" by simp_all
  have l: "list_all (\<lambda>x. legal_key (op_key x)) scenario_throws"
    by (simp add: scenario_throws_def legal_key_def)
  have p: "fst (put 3 (init 3) [0x80] [0x39]) = Inl TypeError"
    by code_simp
  have k: "map key (scanAscending scenario_table) = [0x21] # [0x41] # [0x43] # []"
    by (simp add: scanAscending_def scenario_table_def EMPTY_KEY_def)
  show ?thesis
    using a l p k run_any_scenario C6_order[OF a l run_any_scenario] by simp
qed

end
